theory Spec2Isabelle
  imports Main
begin

section \<open>Bytes, strings and errors\<close>

text \<open>
  A Go \<^verbatim>\<open>string\<close> and a \<^verbatim>\<open>[]byte\<close> are sequences of bytes; \<^typ>\<open>string\<close> (a list
  of 8-bit \<^typ>\<open>char\<close>) is exactly that. \<open>bv c\<close> is the numeric value of a byte.
\<close>

abbreviation bv :: "char \<Rightarrow> nat" where
  "bv c \<equiv> of_char c"

abbreviation byte :: "nat \<Rightarrow> char" where
  "byte n \<equiv> char_of n"

text \<open>
  The errors of package \<^verbatim>\<open>pw\<close>. The first four are the package's sentinel values
  (\<^verbatim>\<open>errors.New\<close>); every other constructor stands for one \<^verbatim>\<open>fmt.Errorf\<close> or one
  propagated library error of \<^verbatim>\<open>pw.go\<close>. \<open>PanicIndexOutOfRange\<close> is the run-time panic
  of an out-of-range index, \<open>PanicNilDereference\<close> the run-time panic of a call through
  a nil function value: the program stops there instead of returning.
\<close>

datatype error =
    ErrPwFileNotFound
  | ErrPwFileAlreadyExists
  | ErrPwNotFound
  | ErrPwAlreadyExists
  | ErrFilenameEmpty
  | ErrStat
  | ErrIsDirectory
  | ErrScryptDec
  | ErrInvalidJSON
  | ErrStdinPipe
  | ErrScryptStart
  | ErrStdinWrite
  | ErrScryptEnc
  | ErrChmod
  | ErrLengthNotPositive
  | ErrCharsetEmpty
  | ErrRandom
  | PanicIndexOutOfRange
  | PanicNilDereference

section \<open>UTF-8 (package \<^verbatim>\<open>unicode/utf8\<close>)\<close>

text \<open>
  \<^verbatim>\<open>utf8.DecodeRuneInString\<close>: the rune at the front of a string and its width in
  bytes. An empty string gives \<open>(RuneError, 0)\<close>, an ill-formed sequence
  \<open>(RuneError, 1)\<close>. The masks of the Go code are written as \<open>mod\<close>, the shifts
  as multiplications; the table \<^verbatim>\<open>first\<close> and the \<^verbatim>\<open>acceptRanges\<close> are the two
  functions below.
\<close>

definition RuneError :: nat where
  "RuneError = 0xFFFD"

definition rune_size :: "nat \<Rightarrow> nat" where
  \<comment> \<open>the low bits of \<^verbatim>\<open>first[s0]\<close>: the width announced by a lead byte, 0 for an invalid one\<close>
  "rune_size s0 =
     (if s0 < 0x80 then 1
      else if s0 < 0xC2 then 0
      else if s0 < 0xE0 then 2
      else if s0 < 0xF0 then 3
      else if s0 < 0xF5 then 4
      else 0)"

definition accept_lo :: "nat \<Rightarrow> nat" where
  "accept_lo s0 = (if s0 = 0xE0 then 0xA0 else if s0 = 0xF0 then 0x90 else 0x80)"

definition accept_hi :: "nat \<Rightarrow> nat" where
  "accept_hi s0 = (if s0 = 0xED then 0x9F else if s0 = 0xF4 then 0x8F else 0xBF)"

fun DecodeRune :: "string \<Rightarrow> nat \<times> nat" where
  "DecodeRune [] = (RuneError, 0)"
| "DecodeRune (c0 # cs) =
     (let s0 = bv c0; sz = rune_size s0 in
      if s0 < 0x80 then (s0, 1)
      else if sz = 0 then (RuneError, 1)
      else if length (c0 # cs) < sz then (RuneError, 1)
      else
        let s1 = bv (cs ! 0) in
        if s1 < accept_lo s0 \<or> accept_hi s0 < s1 then (RuneError, 1)
        else if sz \<le> 2 then ((s0 mod 32) * 64 + s1 mod 64, 2)
        else
          let s2 = bv (cs ! 1) in
          if s2 < 0x80 \<or> 0xBF < s2 then (RuneError, 1)
          else if sz \<le> 3 then ((s0 mod 16) * 4096 + (s1 mod 64) * 64 + s2 mod 64, 3)
          else
            let s3 = bv (cs ! 2) in
            if s3 < 0x80 \<or> 0xBF < s3 then (RuneError, 1)
            else ((s0 mod 8) * 262144 + (s1 mod 64) * 4096 + (s2 mod 64) * 64 + s3 mod 64, 4))"

text \<open>
  \<^verbatim>\<open>utf8.EncodeRune\<close> (\<^verbatim>\<open>utf8.AppendRune\<close>): a surrogate or a value above
  \<^verbatim>\<open>utf8.MaxRune\<close> is written as the replacement character \<open>U+FFFD\<close>.
\<close>

definition EncodeRune :: "nat \<Rightarrow> string" where
  "EncodeRune r =
     (if r \<le> 0x7F then [byte r]
      else if r \<le> 0x7FF then [byte (0xC0 + r div 64), byte (0x80 + r mod 64)]
      else if r > 0x10FFFF \<or> (0xD800 \<le> r \<and> r \<le> 0xDFFF) then [CHR 0xEF, CHR 0xBF, CHR 0xBD]
      else if r \<le> 0xFFFF then
        [byte (0xE0 + r div 4096), byte (0x80 + (r div 64) mod 64), byte (0x80 + r mod 64)]
      else
        [byte (0xF0 + r div 262144), byte (0x80 + (r div 4096) mod 64),
         byte (0x80 + (r div 64) mod 64), byte (0x80 + r mod 64)])"

lemma DecodeRune_size_pos: "s \<noteq> [] \<Longrightarrow> 0 < snd (DecodeRune s)"
  by (cases s) (simp_all add: Let_def)

lemma rune_size_cases: "rune_size b \<in> {0, 1, 2, 3, 4}"
  by (simp add: rune_size_def)

lemma DecodeRune_size_le: "snd (DecodeRune s) \<le> length s"
proof (cases s)
  case Nil
  then show ?thesis by simp
next
  case (Cons c0 cs)
  consider "rune_size (bv c0) = 0" | "rune_size (bv c0) = 1" | "rune_size (bv c0) = 2"
    | "rune_size (bv c0) = 3" | "rune_size (bv c0) = 4"
    using rune_size_cases[of "bv c0"] by auto
  then have "snd (DecodeRune (c0 # cs)) \<le> length (c0 # cs)"
    by cases (auto simp: Let_def rune_size_def Suc_le_eq split: if_splits)
  with Cons show ?thesis by simp
qed

lemma DecodeRune_size_pos_Cons [simp]: "0 < snd (DecodeRune (c # cs))"
  by (simp add: Let_def)

declare DecodeRune.simps(2) [simp del]

text \<open>
  The runes of a string, as the Go conversion \<^verbatim>\<open>[]rune(s)\<close> and a \<^verbatim>\<open>range\<close> loop
  over a string produce them: one \<open>U+FFFD\<close> for each byte that starts no
  well-formed sequence.
\<close>

function runes :: "string \<Rightarrow> nat list" where
  "runes s = (if s = [] then [] else fst (DecodeRune s) # runes (drop (snd (DecodeRune s)) s))"
  by pat_completeness auto
termination
  by (relation "measure length") (auto simp: DecodeRune_size_pos)

text \<open>\<^verbatim>\<open>utf8.ValidString\<close>: no step of the decoding is an error of width 1.\<close>

function ValidString :: "string \<Rightarrow> bool" where
  "ValidString s =
     (if s = [] then True
      else \<not> (fst (DecodeRune s) = RuneError \<and> snd (DecodeRune s) = 1)
           \<and> ValidString (drop (snd (DecodeRune s)) s))"
  by pat_completeness auto
termination
  by (relation "measure length") (auto simp: DecodeRune_size_pos)

declare runes.simps [simp del] ValidString.simps [simp del]

section \<open>The password generator\<close>

text \<open>
  \<^verbatim>\<open>crypto/rand\<close> is outside the program. The \<open>k\<close>-th call of
  \<^verbatim>\<open>cryptorand.Int(cryptorand.Reader, max)\<close> either fails or yields an index; the
  source of randomness is the function that tells which.
\<close>

datatype draw = DrawFail | DrawIdx nat

type_synonym rand_source = "nat \<Rightarrow> draw"

definition cryptorand_Int :: "rand_source \<Rightarrow> nat \<Rightarrow> error + nat" where
  "cryptorand_Int src k = (case src k of DrawFail \<Rightarrow> Inl ErrRandom | DrawIdx r \<Rightarrow> Inr r)"

text \<open>
  The contract of \<^verbatim>\<open>rand.Int\<close>: a value in \<open>[0, max)\<close>. A source honours it for the
  first \<open>n\<close> calls when each of them succeeds with an index below \<open>max\<close>.
\<close>

definition honest_source :: "rand_source \<Rightarrow> nat \<Rightarrow> nat \<Rightarrow> bool" where
  "honest_source src n mx = (\<forall>k<n. \<exists>r<mx. src k = DrawIdx r)"

definition draw_idx :: "draw \<Rightarrow> nat" where
  "draw_idx d = (case d of DrawFail \<Rightarrow> 0 | DrawIdx r \<Rightarrow> r)"

text \<open>
  The loop of \<^verbatim>\<open>GeneratePassword\<close>: \<open>i\<close> is the loop counter, \<open>password\<close> the byte
  slice made by \<^verbatim>\<open>make([]byte, length)\<close>, written at index \<open>i\<close>. \<^verbatim>\<open>charset[idx]\<close>
  indexes the bytes of the string and panics out of range.
\<close>

function gen_loop :: "nat \<Rightarrow> nat \<Rightarrow> string \<Rightarrow> rand_source \<Rightarrow> string \<Rightarrow> error + string" where
  "gen_loop i n charset src password =
     (if i < n then
        (case cryptorand_Int src i of
           Inl e \<Rightarrow> Inl e
         | Inr idx \<Rightarrow>
             if idx < length charset
             then gen_loop (Suc i) n charset src (password[i := charset ! idx])
             else Inl PanicIndexOutOfRange)
      else Inr password)"
  by pat_completeness auto
termination
  by (relation "measure (\<lambda>(i, n, charset, src, password). n - i)") auto

declare gen_loop.simps [simp del]

definition GeneratePassword :: "int \<Rightarrow> string \<Rightarrow> rand_source \<Rightarrow> error + string" where
  "GeneratePassword len charset src =
     (if len \<le> 0 then Inl ErrLengthNotPositive
      else if length charset = 0 then Inl ErrCharsetEmpty
      else gen_loop 0 (nat len) charset src (replicate (nat len) (CHR 0x00)))"

text \<open>
  The guarantee of the specification, in its words: the result has exactly \<open>length\<close>
  characters and each of them is a character of the charset. Characters are the runes
  of the UTF-8 text.
\<close>

definition char_guarantee :: "int \<Rightarrow> string \<Rightarrow> string \<Rightarrow> bool" where
  "char_guarantee len charset pw \<longleftrightarrow>
     length (runes pw) = nat len \<and> set (runes pw) \<subseteq> set (runes charset)"

text \<open>Every character of a string is a single byte: it has as many runes as bytes.\<close>

definition single_byte_chars :: "string \<Rightarrow> bool" where
  "single_byte_chars s \<longleftrightarrow> length (runes s) = length s"

section \<open>The records and their JSON encoding (package \<^verbatim>\<open>encoding/json\<close>)\<close>

text \<open>\<^verbatim>\<open>PasswordEntry\<close>, an entry of the password file.\<close>

record PasswordEntry =
  Name :: string
  Username :: string
  Password :: string

text \<open>
  A Go slice of entries is either \<^verbatim>\<open>nil\<close> or a sequence of elements; \<^verbatim>\<open>json.Marshal\<close>
  tells the two apart. \<open>elems\<close> are the elements a \<^verbatim>\<open>range\<close> loop visits and
  \<open>append_entry\<close> is the built-in \<^verbatim>\<open>append\<close>.
\<close>

datatype entries = NilSlice | Slice "PasswordEntry list"

fun elems :: "entries \<Rightarrow> PasswordEntry list" where
  "elems NilSlice = []"
| "elems (Slice xs) = xs"

definition append_entry :: "entries \<Rightarrow> PasswordEntry \<Rightarrow> entries" where
  "append_entry data e = Slice (elems data @ [e])"

abbreviation dq :: char where
  "dq \<equiv> CHR 0x22"

abbreviation bsl :: char where
  "bsl \<equiv> CHR 0x5C"

subsection \<open>Encoding: \<^verbatim>\<open>json.Marshal\<close>\<close>

text \<open>
  \<^verbatim>\<open>appendString\<close> of \<^verbatim>\<open>encode.go\<close> with \<^verbatim>\<open>escapeHTML\<close> set, as \<^verbatim>\<open>json.Marshal\<close>
  calls it (Go 1.22 and later, where backspace and form feed have the short escapes).
  \<open>htmlSafe\<close> is the table \<^verbatim>\<open>htmlSafeSet\<close>. A byte that starts no well-formed UTF-8
  sequence is written as the escape of \<open>U+FFFD\<close>; the line and paragraph separators
  \<open>U+2028\<close> and \<open>U+2029\<close> are escaped; every other rune is copied.
\<close>

definition hex_digit :: "nat \<Rightarrow> char" where
  "hex_digit n = ''0123456789abcdef'' ! n"

definition htmlSafe :: "char \<Rightarrow> bool" where
  "htmlSafe c \<longleftrightarrow> 0x20 \<le> bv c \<and> bv c < 0x80 \<and> c \<noteq> dq \<and> c \<noteq> bsl
     \<and> c \<noteq> CHR ''<'' \<and> c \<noteq> CHR ''>'' \<and> c \<noteq> CHR ''&''"

definition escape_byte :: "char \<Rightarrow> string" where
  "escape_byte c =
     (if c = bsl \<or> c = dq then [bsl, c]
      else if c = CHR 0x08 then [bsl, CHR ''b'']
      else if c = CHR 0x0C then [bsl, CHR ''f'']
      else if c = CHR 0x0A then [bsl, CHR ''n'']
      else if c = CHR 0x0D then [bsl, CHR ''r'']
      else if c = CHR 0x09 then [bsl, CHR ''t'']
      else [bsl, CHR ''u'', CHR ''0'', CHR ''0'', hex_digit (bv c div 16), hex_digit (bv c mod 16)])"

function appendString_loop :: "string \<Rightarrow> string" where
  "appendString_loop [] = []"
| "appendString_loop (c # cs) =
     (if bv c < 0x80 then
        (if htmlSafe c then [c] else escape_byte c) @ appendString_loop cs
      else
        (let r = fst (DecodeRune (c # cs)); n = snd (DecodeRune (c # cs)) in
         if r = RuneError \<and> n = 1 then
           [bsl, CHR ''u'', CHR ''f'', CHR ''f'', CHR ''f'', CHR ''d'']
           @ appendString_loop (drop n (c # cs))
         else if r = 0x2028 \<or> r = 0x2029 then
           [bsl, CHR ''u'', CHR ''2'', CHR ''0'', CHR ''2'', hex_digit (r mod 16)]
           @ appendString_loop (drop n (c # cs))
         else take n (c # cs) @ appendString_loop (drop n (c # cs))))"
  by pat_completeness auto
termination
  by (relation "measure length") (auto simp: DecodeRune_size_pos)

definition appendString :: "string \<Rightarrow> string" where
  "appendString s = [dq] @ appendString_loop s @ [dq]"

text \<open>
  The struct encoder writes the fields in declaration order under the names of their
  tags; the slice encoder writes \<^verbatim>\<open>null\<close> for a nil slice and a bracketed,
  comma-separated list otherwise. \<^verbatim>\<open>json.Marshal\<close> cannot fail on this type.
\<close>

definition marshal_entry :: "PasswordEntry \<Rightarrow> string" where
  "marshal_entry e =
     [CHR ''{'', dq] @ ''name'' @ [dq, CHR '':''] @ appendString (Name e)
     @ [CHR '','', dq] @ ''username'' @ [dq, CHR '':''] @ appendString (Username e)
     @ [CHR '','', dq] @ ''password'' @ [dq, CHR '':''] @ appendString (Password e)
     @ ''}''"

fun marshal_elems :: "PasswordEntry list \<Rightarrow> string" where
  "marshal_elems [] = []"
| "marshal_elems [e] = marshal_entry e"
| "marshal_elems (e # es) = marshal_entry e @ '','' @ marshal_elems es"

fun Marshal :: "entries \<Rightarrow> string" where
  "Marshal NilSlice = ''null''"
| "Marshal (Slice xs) = ''['' @ marshal_elems xs @ '']''"

text \<open>
  What the encoding keeps of a string: every byte that starts no well-formed UTF-8
  sequence replaced by the three bytes of \<open>U+FFFD\<close>, as \<^verbatim>\<open>strings.ToValidUTF8\<close> with
  that replacement does for runs of one byte. A well-formed string is kept as it is.
\<close>

function coerce :: "string \<Rightarrow> string" where
  "coerce [] = []"
| "coerce (c # cs) =
     (if bv c < 0x80 then c # coerce cs
      else if fst (DecodeRune (c # cs)) = RuneError \<and> snd (DecodeRune (c # cs)) = 1
        then [CHR 0xEF, CHR 0xBF, CHR 0xBD] @ coerce cs
      else take (snd (DecodeRune (c # cs))) (c # cs)
           @ coerce (drop (snd (DecodeRune (c # cs))) (c # cs)))"
  by pat_completeness auto
termination
  by (relation "measure length") auto

definition coerce_entry :: "PasswordEntry \<Rightarrow> PasswordEntry" where
  "coerce_entry e =
     \<lparr>Name = coerce (Name e), Username = coerce (Username e), Password = coerce (Password e)\<rparr>"

fun coerce_entries :: "entries \<Rightarrow> entries" where
  "coerce_entries NilSlice = NilSlice"
| "coerce_entries (Slice xs) = Slice (map coerce_entry xs)"

definition valid_entry :: "PasswordEntry \<Rightarrow> bool" where
  "valid_entry e \<longleftrightarrow> ValidString (Name e) \<and> ValidString (Username e) \<and> ValidString (Password e)"

subsection \<open>Decoding: \<^verbatim>\<open>json.Unmarshal\<close>\<close>

text \<open>
  \<^verbatim>\<open>json.Unmarshal\<close> first checks that the whole input is one well-formed JSON text
  (\<^verbatim>\<open>checkValid\<close>, a scanner over the bytes with a stack of open containers of at most
  \<^verbatim>\<open>maxNestingDepth\<close> entries) and then walks it, storing into the target value. The
  model splits this into a lexer that produces tokens, with the string literals
  unquoted as \<^verbatim>\<open>unquoteBytes\<close> does, and a decoder over the tokens directed by the
  target type \<^verbatim>\<open>[]PasswordEntry\<close>. Any error, of syntax or of type, makes
  \<^verbatim>\<open>Unmarshal\<close> return an error, and \<^verbatim>\<open>read\<close> drops its partial result.
\<close>

datatype token =
    TLBrack | TRBrack | TLBrace | TRBrace | TComma | TColon
  | TString string | TNumber | TTrue | TFalse | TNull

definition isSpace :: "char \<Rightarrow> bool" where
  "isSpace c \<longleftrightarrow> c = CHR '' '' \<or> c = CHR 0x09 \<or> c = CHR 0x0D \<or> c = CHR 0x0A"

definition isDigit :: "char \<Rightarrow> bool" where
  "isDigit c \<longleftrightarrow> 0x30 \<le> bv c \<and> bv c \<le> 0x39"

definition hexval :: "char \<Rightarrow> nat option" where
  "hexval c =
     (if 0x30 \<le> bv c \<and> bv c \<le> 0x39 then Some (bv c - 0x30)
      else if 0x61 \<le> bv c \<and> bv c \<le> 0x66 then Some (bv c - 0x61 + 10)
      else if 0x41 \<le> bv c \<and> bv c \<le> 0x46 then Some (bv c - 0x41 + 10)
      else None)"

text \<open>
  \<^verbatim>\<open>getu4\<close>: the value of a \<open>\<bsol>uXXXX\<close> escape at the front of the input, or nothing
  (the Go function returns \<open>-1\<close>).
\<close>

fun getu4 :: "string \<Rightarrow> nat option" where
  "getu4 (b # u # h1 # h2 # h3 # h4 # rest) =
     (if b = bsl \<and> u = CHR ''u'' then
        (case hexval h1 of None \<Rightarrow> None | Some x1 \<Rightarrow>
         case hexval h2 of None \<Rightarrow> None | Some x2 \<Rightarrow>
         case hexval h3 of None \<Rightarrow> None | Some x3 \<Rightarrow>
         case hexval h4 of None \<Rightarrow> None | Some x4 \<Rightarrow>
           Some (((x1 * 16 + x2) * 16 + x3) * 16 + x4))
      else None)"
| "getu4 _ = None"

definition emit :: "string \<Rightarrow> (string \<times> string) option \<Rightarrow> (string \<times> string) option" where
  "emit out res = (case res of None \<Rightarrow> None | Some (s, rest) \<Rightarrow> Some (out @ s, rest))"

text \<open>
  A string literal, read from behind its opening quote: the scanner's checks (no
  control character, only the escapes of JSON, four hexadecimal digits after
  \<open>\<bsol>u\<close>) together with the unquoting of \<^verbatim>\<open>unquoteBytes\<close>. The result is the decoded
  string and the input behind the closing quote. A surrogate escape followed by a low
  surrogate escape is one rune (\<^verbatim>\<open>utf16.DecodeRune\<close>); a lone surrogate becomes
  \<open>U+FFFD\<close>; bytes from \<open>0x80\<close> on are decoded and encoded again, which turns
  every ill-formed byte into \<open>U+FFFD\<close>. No byte of a well-formed sequence is a
  quote, so decoding never reads past the closing quote of the literal.
\<close>

function lex_string :: "string \<Rightarrow> (string \<times> string) option" where
  "lex_string [] = None"
| "lex_string (c # cs) =
     (if c = dq then Some ([], cs)
      else if c = bsl then
        (case cs of
           [] \<Rightarrow> None
         | e # cs' \<Rightarrow>
             if e = dq \<or> e = bsl \<or> e = CHR ''/'' then emit [e] (lex_string cs')
             else if e = CHR ''b'' then emit [CHR 0x08] (lex_string cs')
             else if e = CHR ''f'' then emit [CHR 0x0C] (lex_string cs')
             else if e = CHR ''n'' then emit [CHR 0x0A] (lex_string cs')
             else if e = CHR ''r'' then emit [CHR 0x0D] (lex_string cs')
             else if e = CHR ''t'' then emit [CHR 0x09] (lex_string cs')
             else if e = CHR ''u'' then
               (case getu4 (c # cs) of
                  None \<Rightarrow> None
                | Some rr \<Rightarrow>
                    if 0xD800 \<le> rr \<and> rr < 0xE000 then
                      (case getu4 (drop 6 (c # cs)) of
                         None \<Rightarrow> emit (EncodeRune RuneError) (lex_string (drop 6 (c # cs)))
                       | Some rr1 \<Rightarrow>
                           if rr < 0xDC00 \<and> 0xDC00 \<le> rr1 \<and> rr1 < 0xE000 then
                             emit (EncodeRune ((rr - 0xD800) * 1024 + (rr1 - 0xDC00) + 0x10000))
                               (lex_string (drop 12 (c # cs)))
                           else emit (EncodeRune RuneError) (lex_string (drop 6 (c # cs))))
                    else emit (EncodeRune rr) (lex_string (drop 6 (c # cs))))
             else None)
      else if bv c < 0x20 then None
      else if bv c < 0x80 then emit [c] (lex_string cs)
      else emit (EncodeRune (fst (DecodeRune (c # cs))))
             (lex_string (drop (snd (DecodeRune (c # cs))) (c # cs))))"
  by pat_completeness auto
termination
  by (relation "measure length") (auto simp: DecodeRune_size_pos)

text \<open>
  A number literal, by the states of the scanner (\<^verbatim>\<open>stateNeg\<close>, \<^verbatim>\<open>state0\<close>,
  \<^verbatim>\<open>state1\<close>, \<^verbatim>\<open>stateDot\<close>, \<^verbatim>\<open>stateE\<close>, ...): the input behind the literal, or
  nothing when the literal is malformed. No number can be stored into the target type,
  so its value is not kept.
\<close>

definition lex_exp :: "string \<Rightarrow> string option" where
  "lex_exp s =
     (case s of
        [] \<Rightarrow> Some s
      | e # r \<Rightarrow>
          if e = CHR ''e'' \<or> e = CHR ''E'' then
            (let r1 = (case r of [] \<Rightarrow> r
                       | sg # r' \<Rightarrow> if sg = CHR ''+'' \<or> sg = CHR ''-'' then r' else r) in
             case r1 of
               [] \<Rightarrow> None
             | d # r2 \<Rightarrow> if isDigit d then Some (dropWhile isDigit r2) else None)
          else Some s)"

definition lex_frac :: "string \<Rightarrow> string option" where
  "lex_frac s =
     (case s of
        [] \<Rightarrow> Some s
      | p # r \<Rightarrow>
          if p = CHR ''.'' then
            (case r of
               [] \<Rightarrow> None
             | d # r' \<Rightarrow> if isDigit d then lex_exp (dropWhile isDigit r') else None)
          else lex_exp s)"

definition lex_int :: "string \<Rightarrow> string option" where
  "lex_int s =
     (case s of
        [] \<Rightarrow> None
      | d # r \<Rightarrow>
          if d = CHR ''0'' then lex_frac r
          else if isDigit d then lex_frac (dropWhile isDigit r)
          else None)"

definition lex_number :: "string \<Rightarrow> string option" where
  "lex_number s =
     (case s of
        [] \<Rightarrow> None
      | m # r \<Rightarrow> if m = CHR ''-'' then lex_int r else lex_int s)"

lemma emit_Some: "emit out res = Some (s, rest) \<longleftrightarrow> (\<exists>s'. res = Some (s', rest) \<and> s = out @ s')"
  by (auto simp: emit_def split: option.splits)

lemma emit_rest: "emit out res = Some (s, rest) \<Longrightarrow> \<exists>s'. res = Some (s', rest)"
  by (auto simp: emit_Some)

lemma lex_string_step:
  assumes "lex_string (c # cs) = Some (x, r)"
  shows "r = cs \<or> (\<exists>k x'. lex_string (drop k cs) = Some (x', r))"
proof -
  have d: "drop (snd (DecodeRune (c # cs))) (c # cs) = drop (snd (DecodeRune (c # cs)) - 1) cs"
    by (simp add: drop_Cons')
  have d6: "drop 6 (c # cs) = drop 5 cs" and d12: "drop 12 (c # cs) = drop 11 cs"
    by simp_all
  have z: "lex_string cs = Some (x', r) \<Longrightarrow> \<exists>k x'. lex_string (drop k cs) = Some (x', r)" for x'
    by (metis drop0)
  have t: "cs = e # cs' \<Longrightarrow> lex_string cs' = Some (x', r) \<Longrightarrow> \<exists>k x'. lex_string (drop k cs) = Some (x', r)" for e cs' x'
    by (metis drop0 drop_Suc_Cons)
  show ?thesis
  proof (cases "c = dq")
    case True
    with assms show ?thesis by simp
  next
    case ndq: False
    show ?thesis
    proof (cases "c = bsl")
      case False
      with ndq assms show ?thesis
        unfolding lex_string.simps d
        by (auto split: if_splits dest!: emit_rest dest: z)
    next
      case True
      show ?thesis
      proof (cases cs)
        case Nil
        with True assms show ?thesis by simp
      next
        case (Cons e cs')
        show ?thesis
        proof (cases "e = CHR ''u''")
          case False
          with True ndq Cons assms have "\<exists>s'. lex_string cs' = Some (s', r)"
            by (auto split: if_splits dest!: emit_rest)
          with t[OF Cons] show ?thesis by blast
        next
          case u: True
          have "(\<exists>s'. lex_string (drop 5 cs) = Some (s', r)) \<or> (\<exists>s'. lex_string (drop 11 cs) = Some (s', r))"
            using assms True u Cons unfolding lex_string.simps d6 d12
            by (auto split: if_splits option.splits dest!: emit_rest)
          then show ?thesis by blast
        qed
      qed
    qed
  qed
qed

lemma lex_string_shorter: "lex_string s = Some (x, r) \<Longrightarrow> length r < length s"
proof (induction "length s" arbitrary: s x r rule: less_induct)
  case less
  show ?case
  proof (cases s)
    case Nil
    with less.prems show ?thesis by simp
  next
    case (Cons c cs)
    from less.prems Cons lex_string_step[of c cs x r]
    consider "r = cs" | k x' where "lex_string (drop k cs) = Some (x', r)"
      by blast
    then show ?thesis
    proof cases
      case 1
      with Cons show ?thesis by simp
    next
      case 2
      have "length (drop k cs) < length s" using Cons by simp
      from less.hyps[OF this 2] show ?thesis using Cons by simp
    qed
  qed
qed

lemma dropWhile_shorter: "length (dropWhile P xs) \<le> length xs"
  by (induction xs) auto

lemma lex_exp_shorter: "lex_exp s = Some r \<Longrightarrow> length r \<le> length s"
  using dropWhile_shorter[of isDigit]
  by (auto simp: lex_exp_def Let_def le_Suc_eq split: list.splits if_splits
      intro: le_SucI order_trans)

lemma lex_frac_shorter: "lex_frac s = Some r \<Longrightarrow> length r \<le> length s"
  using dropWhile_shorter[of isDigit]
  by (auto simp: lex_frac_def split: list.splits if_splits
      dest!: lex_exp_shorter intro: le_SucI order_trans)

lemma lex_int_shorter: "lex_int s = Some r \<Longrightarrow> length r < length s"
  using dropWhile_shorter[of isDigit]
  by (auto simp: lex_int_def less_Suc_eq_le split: list.splits if_splits
      dest!: lex_frac_shorter intro: order_trans)

lemma lex_number_shorter: "lex_number s = Some r \<Longrightarrow> length r < length s"
  by (auto simp: lex_number_def split: list.splits if_splits
      dest!: lex_int_shorter intro: less_SucI)

text \<open>The literals \<^verbatim>\<open>true\<close>, \<^verbatim>\<open>false\<close> and \<^verbatim>\<open>null\<close>.\<close>

definition lex_literal :: "string \<Rightarrow> (token \<times> string) option" where
  "lex_literal s =
     (if take 4 s = ''true'' then Some (TTrue, drop 4 s)
      else if take 5 s = ''false'' then Some (TFalse, drop 5 s)
      else if take 4 s = ''null'' then Some (TNull, drop 4 s)
      else None)"

lemma lex_literal_shorter: "lex_literal s = Some (t, r) \<Longrightarrow> length r < length s"
proof -
  assume a: "lex_literal s = Some (t, r)"
  then have "s \<noteq> []"
    by (auto simp: lex_literal_def)
  with a show ?thesis
    by (auto simp: lex_literal_def split: if_splits)
qed

definition tok :: "token \<Rightarrow> token list option \<Rightarrow> token list option" where
  "tok t res = (case res of None \<Rightarrow> None | Some ts \<Rightarrow> Some (t # ts))"

text \<open>
  The lexer: white space is skipped (\<^verbatim>\<open>isSpace\<close>), the six structural bytes are
  tokens, and a value starts with a quote, a minus sign or a digit, or is one of the
  three literals. Every other byte is the scanner's \<^verbatim>\<open>invalid character\<close> error.
\<close>

function tokenize :: "string \<Rightarrow> token list option" where
  "tokenize [] = Some []"
| "tokenize (c # cs) =
     (if isSpace c then tokenize cs
      else if c = CHR ''['' then tok TLBrack (tokenize cs)
      else if c = CHR '']'' then tok TRBrack (tokenize cs)
      else if c = CHR ''{'' then tok TLBrace (tokenize cs)
      else if c = CHR ''}'' then tok TRBrace (tokenize cs)
      else if c = CHR '','' then tok TComma (tokenize cs)
      else if c = CHR '':'' then tok TColon (tokenize cs)
      else if c = dq then
        (case lex_string cs of
           None \<Rightarrow> None
         | Some (s, rest) \<Rightarrow> tok (TString s) (tokenize rest))
      else if c = CHR ''-'' \<or> isDigit c then
        (case lex_number (c # cs) of
           None \<Rightarrow> None
         | Some rest \<Rightarrow> tok TNumber (tokenize rest))
      else
        (case lex_literal (c # cs) of
           None \<Rightarrow> None
         | Some (t, rest) \<Rightarrow> tok t (tokenize rest)))"
  by pat_completeness auto
termination
proof (relation "measure length", goal_cases)
  case 1 show ?case by simp
next
  case 2 then show ?case by simp
next
  case 3 then show ?case by simp
next
  case 4 then show ?case by simp
next
  case 5 then show ?case by simp
next
  case 6 then show ?case by simp
next
  case 7 then show ?case by simp
next
  case 8 then show ?case by simp
next
  case (9 c cs x s rest) then show ?case using lex_string_shorter[of cs s rest] by simp
next
  case (10 c cs rest) then show ?case using lex_number_shorter[of "c # cs" rest] by simp
next
  case (11 c cs x t rest) then show ?case using lex_literal_shorter[of "c # cs" t rest] by simp
qed

text \<open>
  A value that is stored nowhere (the value of an unknown key) is only checked: the
  scanner's grammar of values, with its stack of open containers. \<open>d\<close> is the number of
  containers already open around the value; the scanner refuses to open more than
  \<^verbatim>\<open>maxNestingDepth\<close>. The result is the input behind the value.
\<close>

definition maxNestingDepth :: nat where
  "maxNestingDepth = 10000"

datatype frame = FArray | FObject

datatype sstate = SValue | SValueOrEnd | SKeyOrEnd | SKey | SColon | SEnd

fun is_scalar :: "token \<Rightarrow> bool" where
  "is_scalar (TString s) = True"
| "is_scalar TNumber = True"
| "is_scalar TTrue = True"
| "is_scalar TFalse = True"
| "is_scalar TNull = True"
| "is_scalar _ = False"

fun is_string :: "token \<Rightarrow> bool" where
  "is_string (TString s) = True"
| "is_string _ = False"

fun skip :: "nat \<Rightarrow> sstate \<Rightarrow> frame list \<Rightarrow> token list \<Rightarrow> token list option" where
  "skip d st stk [] = None"
| "skip d st stk (t # ts) =
     (if st = SValue \<or> st = SValueOrEnd then
        (if is_scalar t then (if stk = [] then Some ts else skip d SEnd stk ts)
         else if t = TLBrack then
           (if d + length stk + 1 \<le> maxNestingDepth then skip d SValueOrEnd (FArray # stk) ts
            else None)
         else if t = TLBrace then
           (if d + length stk + 1 \<le> maxNestingDepth then skip d SKeyOrEnd (FObject # stk) ts
            else None)
         else if t = TRBrack \<and> st = SValueOrEnd then
           (if tl stk = [] then Some ts else skip d SEnd (tl stk) ts)
         else None)
      else if st = SKeyOrEnd \<or> st = SKey then
        (if is_string t then skip d SColon stk ts
         else if t = TRBrace \<and> st = SKeyOrEnd then
           (if tl stk = [] then Some ts else skip d SEnd (tl stk) ts)
         else None)
      else if st = SColon then
        (if t = TColon then skip d SValue stk ts else None)
      else
        (case stk of
           [] \<Rightarrow> None
         | f # stk' \<Rightarrow>
             if t = TComma then skip d (if f = FArray then SValue else SKey) stk ts
             else if (t = TRBrack \<and> f = FArray) \<or> (t = TRBrace \<and> f = FObject) then
               (if stk' = [] then Some ts else skip d SEnd stk' ts)
             else None))"

lemma skip_step:
  "skip d st stk (t # ts) = Some r \<Longrightarrow> r = ts \<or> (\<exists>st' stk'. skip d st' stk' ts = Some r)"
  by (simp split: if_splits list.splits) blast+

lemma skip_shorter: "skip d st stk ts = Some r \<Longrightarrow> length r < length ts"
proof (induction ts arbitrary: st stk)
  case Nil
  then show ?case by simp
next
  case (Cons t ts)
  from skip_step[OF Cons.prems] show ?case
  proof
    assume "r = ts"
    then show ?thesis by simp
  next
    assume "\<exists>st' stk'. skip d st' stk' ts = Some r"
    then obtain st' stk' where "skip d st' stk' ts = Some r" by blast
    from Cons.IH[OF this] show ?thesis by simp
  qed
qed

declare skip.simps(2) [simp del]

text \<open>
  The fields of the struct. A key selects the field whose name it equals or, failing
  that, the field whose name it equals under \<^verbatim>\<open>foldName\<close>: ASCII letters in upper
  case and every other rune replaced by the least rune of its orbit under
  \<^verbatim>\<open>unicode.SimpleFold\<close>. The names of the three fields are ASCII, and the only runes
  outside ASCII whose orbit has an ASCII letter are \<open>U+017F\<close> (long s) and \<open>U+212A\<close>
  (the Kelvin sign); \<open>foldRune\<close> maps these two and leaves every other rune alone,
  which decides the same keys.
\<close>

datatype field = FName | FUsername | FPassword

definition foldRune :: "nat \<Rightarrow> nat" where
  "foldRune r = (if r = 0x17F then 0x53 else if r = 0x212A then 0x4B else r)"

function foldName :: "string \<Rightarrow> string" where
  "foldName [] = []"
| "foldName (c # cs) =
     (if bv c < 0x80 then
        (if 0x61 \<le> bv c \<and> bv c \<le> 0x7A then byte (bv c - 0x20) else c) # foldName cs
      else EncodeRune (foldRune (fst (DecodeRune (c # cs))))
           @ foldName (drop (snd (DecodeRune (c # cs))) (c # cs)))"
  by pat_completeness auto
termination
  by (relation "measure length") auto

definition field_of_key :: "string \<Rightarrow> field option" where
  "field_of_key key =
     (if key = ''name'' then Some FName
      else if key = ''username'' then Some FUsername
      else if key = ''password'' then Some FPassword
      else if foldName key = ''NAME'' then Some FName
      else if foldName key = ''USERNAME'' then Some FUsername
      else if foldName key = ''PASSWORD'' then Some FPassword
      else None)"

fun set_field :: "field \<Rightarrow> string \<Rightarrow> PasswordEntry \<Rightarrow> PasswordEntry" where
  "set_field FName v e = e\<lparr>Name := v\<rparr>"
| "set_field FUsername v e = e\<lparr>Username := v\<rparr>"
| "set_field FPassword v e = e\<lparr>Password := v\<rparr>"

definition zero_entry :: PasswordEntry where
  "zero_entry = \<lparr>Name = [], Username = [], Password = []\<rparr>"

text \<open>
  The value of one member of an object, stored into the entry (\<^verbatim>\<open>literalStore\<close>): a
  string sets the field of a known key, \<^verbatim>\<open>null\<close> leaves it alone, and any other value
  there is an \<^verbatim>\<open>UnmarshalTypeError\<close>. The value of an unknown key is skipped. Inside an
  entry two containers are open: the array and the object.
\<close>

definition member_value ::
    "PasswordEntry \<Rightarrow> string \<Rightarrow> token list \<Rightarrow> (PasswordEntry \<times> token list) option" where
  "member_value e key vs =
     (case field_of_key key of
        Some f \<Rightarrow>
          (case vs of
             TString s # r \<Rightarrow> Some (set_field f s e, r)
           | TNull # r \<Rightarrow> Some (e, r)
           | _ \<Rightarrow> None)
      | None \<Rightarrow>
          (case skip 2 SValue [] vs of
             None \<Rightarrow> None
           | Some r \<Rightarrow> Some (e, r)))"

lemma member_value_shorter:
  assumes "member_value e key vs = Some (e', r)"
  shows "length r < length vs"
proof (cases "field_of_key key")
  case None
  with assms obtain r' where "skip 2 SValue [] vs = Some r'" "r = r'"
    by (auto simp: member_value_def split: option.splits)
  then show ?thesis using skip_shorter by blast
next
  case (Some f)
  with assms have "\<exists>t. vs = t # r"
    by (simp add: member_value_def split: list.splits token.splits)
  then show ?thesis by auto
qed

text \<open>
  \<^verbatim>\<open>decodeState.object\<close> on a struct: the members up to the closing brace, each a
  string key, a colon and a value, with commas between them. A later member for the
  same field overwrites an earlier one.
\<close>

function object_members ::
    "PasswordEntry \<Rightarrow> token list \<Rightarrow> (PasswordEntry \<times> token list) option" where
  "object_members e ts =
     (case ts of
        TString key # TColon # vs \<Rightarrow>
          (case member_value e key vs of
             None \<Rightarrow> None
           | Some (e', r) \<Rightarrow>
               (case r of
                  TComma # r' \<Rightarrow> object_members e' r'
                | TRBrace # r' \<Rightarrow> Some (e', r')
                | _ \<Rightarrow> None))
      | _ \<Rightarrow> None)"
  by pat_completeness auto
termination
proof (relation "measure (\<lambda>(e, ts). length ts)", goal_cases)
  case 1
  show ?case by simp
next
  case (2 e ts t ts' key t' vs x e' r t'' r')
  then show ?case using member_value_shorter[of e key vs e' r] by simp
qed

declare object_members.simps [simp del]

definition object :: "token list \<Rightarrow> (PasswordEntry \<times> token list) option" where
  "object ts = (case ts of TRBrace # r \<Rightarrow> Some (zero_entry, r) | _ \<Rightarrow> object_members zero_entry ts)"

text \<open>
  One element of the array, decoded into a fresh element of the slice: an object, or
  \<^verbatim>\<open>null\<close>, which leaves the zero entry. Any other value is an
  \<^verbatim>\<open>UnmarshalTypeError\<close>.
\<close>

definition element :: "token list \<Rightarrow> (PasswordEntry \<times> token list) option" where
  "element ts =
     (case ts of
        TNull # r \<Rightarrow> Some (zero_entry, r)
      | TLBrace # r \<Rightarrow> object r
      | _ \<Rightarrow> None)"

lemma object_members_step:
  assumes "object_members e ts = Some (e', r)"
  shows "\<exists>key vs e1 r1. ts = TString key # TColon # vs \<and> member_value e key vs = Some (e1, r1)
           \<and> ((r1 = TRBrace # r \<and> e' = e1)
                \<or> (\<exists>r2. r1 = TComma # r2 \<and> object_members e1 r2 = Some (e', r)))"
  using assms
  by (subst (asm) object_members.simps)
     (simp split: list.splits token.splits option.splits prod.splits)

lemma object_members_shorter:
  "object_members e ts = Some (e', r) \<Longrightarrow> length r < length ts"
proof (induction "length ts" arbitrary: e ts rule: less_induct)
  case less
  from object_members_step[OF less.prems] obtain key vs e1 r1 where
    ts: "ts = TString key # TColon # vs" and mv: "member_value e key vs = Some (e1, r1)"
    and alt: "(r1 = TRBrace # r \<and> e' = e1)
                \<or> (\<exists>r2. r1 = TComma # r2 \<and> object_members e1 r2 = Some (e', r))"
    by blast
  from member_value_shorter[OF mv] have l1: "length r1 < length vs" .
  from alt show ?case
  proof
    assume "r1 = TRBrace # r \<and> e' = e1"
    with l1 ts show ?thesis by simp
  next
    assume "\<exists>r2. r1 = TComma # r2 \<and> object_members e1 r2 = Some (e', r)"
    then obtain r2 where r2: "r1 = TComma # r2" "object_members e1 r2 = Some (e', r)" by blast
    with l1 ts have "length r2 < length ts" by simp
    from less.hyps[OF this r2(2)] this show ?thesis by simp
  qed
qed

lemma object_shorter:
  assumes "object ts = Some (e, r)"
  shows "length r < length ts"
proof (cases "\<exists>r'. ts = TRBrace # r'")
  case True
  with assms show ?thesis
    by (auto simp: object_def)
next
  case False
  then have "object ts = object_members zero_entry ts"
    by (simp add: object_def split: list.splits token.splits)
  with assms show ?thesis
    using object_members_shorter by simp
qed

lemma element_shorter:
  assumes "element ts = Some (e, r)"
  shows "length r < length ts"
proof -
  from assms have "(\<exists>r'. ts = TNull # r' \<and> r = r')
      \<or> (\<exists>r'. ts = TLBrace # r' \<and> object r' = Some (e, r))"
    by (simp add: element_def split: list.splits token.splits)
  then show ?thesis
  proof
    assume "\<exists>r'. ts = TNull # r' \<and> r = r'"
    then show ?thesis by auto
  next
    assume "\<exists>r'. ts = TLBrace # r' \<and> object r' = Some (e, r)"
    then obtain r' where "ts = TLBrace # r'" "object r' = Some (e, r)" by blast
    with object_shorter[of r' e r] show ?thesis by simp
  qed
qed

text \<open>\<^verbatim>\<open>decodeState.array\<close> on a slice: the elements up to the closing bracket.\<close>

function array_elems :: "token list \<Rightarrow> (PasswordEntry list \<times> token list) option" where
  "array_elems ts =
     (case element ts of
        None \<Rightarrow> None
      | Some (e, r) \<Rightarrow>
          (case r of
             TComma # r' \<Rightarrow>
               (case array_elems r' of
                  None \<Rightarrow> None
                | Some (es, r'') \<Rightarrow> Some (e # es, r''))
           | TRBrack # r' \<Rightarrow> Some ([e], r')
           | _ \<Rightarrow> None))"
  by pat_completeness auto
termination
proof (relation "measure length", goal_cases)
  case 1
  show ?case by simp
next
  case (2 ts x e r t r')
  then show ?case using element_shorter[of ts e r] by simp
qed

declare array_elems.simps [simp del]

definition array :: "token list \<Rightarrow> (PasswordEntry list \<times> token list) option" where
  "array ts = (case ts of TRBrack # r \<Rightarrow> Some ([], r) | _ \<Rightarrow> array_elems ts)"

text \<open>
  \<^verbatim>\<open>json.Unmarshal(output, &data)\<close> for \<^verbatim>\<open>var data []PasswordEntry\<close>: the literal
  \<^verbatim>\<open>null\<close> leaves the slice nil, an array gives a slice that is not nil (also when it is
  empty), every other value is an \<^verbatim>\<open>UnmarshalTypeError\<close>, and nothing but white space
  may follow the value. \<^verbatim>\<open>read\<close> wraps every error as \<^verbatim>\<open>invalid JSON\<close>.
\<close>

definition Unmarshal :: "string \<Rightarrow> error + entries" where
  "Unmarshal data =
     (case tokenize data of
        None \<Rightarrow> Inl ErrInvalidJSON
      | Some ts \<Rightarrow>
          (case ts of
             [TNull] \<Rightarrow> Inr NilSlice
           | TLBrack # r \<Rightarrow>
               (case array r of
                  Some (es, []) \<Rightarrow> Inr (Slice es)
                | _ \<Rightarrow> Inl ErrInvalidJSON)
           | _ \<Rightarrow> Inl ErrInvalidJSON))"

section \<open>The store: file system, encryption delegate and the operations of package \<^verbatim>\<open>pw\<close>\<close>

text \<open>
  The file system maps a path to a directory or to a regular file with its content and
  its permission bits (a number, \<open>0600\<close> octal is \<open>384\<close>). Everything the program
  gets from outside is a field of the environment: whether \<^verbatim>\<open>os.Stat\<close> fails on a path
  with an error other than \<^verbatim>\<open>fs.ErrNotExist\<close>, what a run of \<^verbatim>\<open>scrypt dec\<close> prints for
  a file content (or that it fails), how a run of \<^verbatim>\<open>scrypt enc\<close> on a plaintext ends,
  whether \<^verbatim>\<open>os.Chmod\<close> fails, and the permission bits a newly created file gets.
\<close>

datatype node = Dir | File (content: string) (perm: nat)

type_synonym fs = "string \<rightharpoonup> node"

text \<open>
  The ends of a run of \<^verbatim>\<open>scrypt enc - filename\<close>, one for each return of \<^verbatim>\<open>write\<close>:
  the pipe cannot be made, the command cannot be started, writing the plaintext to its
  input fails, it exits with an error, waiting for it fails, or it succeeds and has
  written the ciphertext. A run that fails after its start leaves behind at the path
  whatever it leaves, which the store does not control.
\<close>

datatype enc_result =
    EncPipeError
  | EncStartError
  | EncWriteError "node option"
  | EncExitError "node option"
  | EncWaitError "node option"
  | EncOk string

record env =
  stat_error :: "string \<Rightarrow> bool"
  scrypt_dec :: "string \<Rightarrow> string option"
  scrypt_enc :: "string \<Rightarrow> enc_result"
  chmod_error :: "string \<Rightarrow> bool"
  create_perm :: nat

datatype stat_err = ENOENT | EOTHER

definition os_Stat :: "env \<Rightarrow> fs \<Rightarrow> string \<Rightarrow> stat_err + node" where
  "os_Stat ev fsys filename =
     (if stat_error ev filename then Inl EOTHER
      else case fsys filename of None \<Rightarrow> Inl ENOENT | Some nd \<Rightarrow> Inr nd)"

definition perm_0600 :: nat where
  "perm_0600 = 6 * 64"

text \<open>\<^verbatim>\<open>read\<close>: the entries of the file, decrypted by \<^verbatim>\<open>scrypt dec\<close> and decoded.\<close>

definition read :: "env \<Rightarrow> fs \<Rightarrow> string \<Rightarrow> error + entries" where
  "read ev fsys filename =
     (case os_Stat ev fsys filename of
        Inl ENOENT \<Rightarrow> Inl ErrPwFileNotFound
      | Inl EOTHER \<Rightarrow> Inl ErrStat
      | Inr Dir \<Rightarrow> Inl ErrIsDirectory
      | Inr (File ciphertext m) \<Rightarrow>
          (case scrypt_dec ev ciphertext of
             None \<Rightarrow> Inl ErrScryptDec
           | Some output \<Rightarrow>
               (case Unmarshal output of
                  Inl e \<Rightarrow> Inl ErrInvalidJSON
                | Inr data \<Rightarrow> Inr data)))"

text \<open>
  \<^verbatim>\<open>write\<close> (here \<open>write_file\<close>): the entries encoded, encrypted into the file by \<^verbatim>\<open>scrypt enc\<close>, and the
  file's permission bits set by \<^verbatim>\<open>os.Chmod(filename, 0600)\<close>. The result is the error
  (none on success) and the file system afterwards. \<^verbatim>\<open>scrypt\<close> cannot write to a path
  that is a directory and exits with an error there; a file it overwrites keeps its
  permission bits, a file it creates gets those of the environment. When writing the
  plaintext to the command's input fails, \<^verbatim>\<open>write\<close> calls \<^verbatim>\<open>cmd.Cancel()\<close>; on a command
  made by \<^verbatim>\<open>exec.Command\<close> the field \<^verbatim>\<open>Cancel\<close> is nil, so the call panics and the
  \<^verbatim>\<open>return err\<close> behind it is never reached.
\<close>

definition write_file :: "env \<Rightarrow> fs \<Rightarrow> string \<Rightarrow> entries \<Rightarrow> error option \<times> fs" where
  "write_file ev fsys filename data =
     (let jsonData = Marshal data in
      case scrypt_enc ev jsonData of
        EncPipeError \<Rightarrow> (Some ErrStdinPipe, fsys)
      | EncStartError \<Rightarrow> (Some ErrScryptStart, fsys)
      | EncWriteError left \<Rightarrow> (Some PanicNilDereference, fsys(filename := left))
      | EncExitError left \<Rightarrow> (Some ErrScryptEnc, fsys(filename := left))
      | EncWaitError left \<Rightarrow> (Some ErrScryptEnc, fsys(filename := left))
      | EncOk ciphertext \<Rightarrow>
          (case fsys filename of
             Some Dir \<Rightarrow> (Some ErrScryptEnc, fsys)
           | Some (File c m) \<Rightarrow>
               if chmod_error ev filename
               then (Some ErrChmod, fsys(filename \<mapsto> File ciphertext m))
               else (None, fsys(filename \<mapsto> File ciphertext perm_0600))
           | None \<Rightarrow>
               if chmod_error ev filename
               then (Some ErrChmod, fsys(filename \<mapsto> File ciphertext (create_perm ev)))
               else (None, fsys(filename \<mapsto> File ciphertext perm_0600))))"

text \<open>\<^verbatim>\<open>Init\<close> creates a new empty password file.\<close>

definition Init :: "env \<Rightarrow> fs \<Rightarrow> string \<Rightarrow> error option \<times> fs" where
  "Init ev fsys filename =
     (if length filename = 0 then (Some ErrFilenameEmpty, fsys)
      else case os_Stat ev fsys filename of
        Inr nd \<Rightarrow> (Some ErrPwFileAlreadyExists, fsys)
      | Inl e \<Rightarrow> write_file ev fsys filename (Slice []))"

text \<open>\<^verbatim>\<open>Get\<close> fetches a password entry by name: the first entry of that name.\<close>

fun Get_loop :: "string \<Rightarrow> PasswordEntry list \<Rightarrow> error + PasswordEntry" where
  "Get_loop name [] = Inl ErrPwNotFound"
| "Get_loop name (entry # rest) = (if Name entry = name then Inr entry else Get_loop name rest)"

definition Get :: "env \<Rightarrow> fs \<Rightarrow> string \<Rightarrow> string \<Rightarrow> error + PasswordEntry" where
  "Get ev fsys filename name =
     (if length filename = 0 then Inl ErrFilenameEmpty
      else case read ev fsys filename of
        Inl err \<Rightarrow> Inl err
      | Inr data \<Rightarrow> Get_loop name (elems data))"

text \<open>\<^verbatim>\<open>List\<close> fetches all password entries.\<close>

definition List :: "env \<Rightarrow> fs \<Rightarrow> string \<Rightarrow> error + entries" where
  "List ev fsys filename =
     (if length filename = 0 then Inl ErrFilenameEmpty else read ev fsys filename)"

text \<open>\<^verbatim>\<open>Add\<close> adds a new password entry, unless an entry of its name exists.\<close>

fun Add_loop :: "PasswordEntry \<Rightarrow> PasswordEntry list \<Rightarrow> error option" where
  "Add_loop newEntry [] = None"
| "Add_loop newEntry (entry # rest) =
     (if Name entry = Name newEntry then Some ErrPwAlreadyExists else Add_loop newEntry rest)"

definition Add :: "env \<Rightarrow> fs \<Rightarrow> string \<Rightarrow> PasswordEntry \<Rightarrow> error option \<times> fs" where
  "Add ev fsys filename newEntry =
     (if length filename = 0 then (Some ErrFilenameEmpty, fsys)
      else case read ev fsys filename of
        Inl err \<Rightarrow> (Some err, fsys)
      | Inr data \<Rightarrow>
          (case Add_loop newEntry (elems data) of
             Some err \<Rightarrow> (Some err, fsys)
           | None \<Rightarrow> write_file ev fsys filename (append_entry data newEntry)))"

text \<open>
  \<^verbatim>\<open>Update\<close> updates an existing password entry. The loop runs over the indices of the
  slice, assigns \<^verbatim>\<open>data[i] = newEntry\<close> at the first entry of that name and stops; the
  result is the slice and the flag \<^verbatim>\<open>found\<close>.
\<close>

function Update_loop ::
    "PasswordEntry \<Rightarrow> PasswordEntry list \<Rightarrow> nat \<Rightarrow> PasswordEntry list \<times> bool" where
  "Update_loop newEntry data i =
     (if i < length data then
        (if Name (data ! i) = Name newEntry then (data[i := newEntry], True)
         else Update_loop newEntry data (Suc i))
      else (data, False))"
  by pat_completeness auto
termination
  by (relation "measure (\<lambda>(newEntry, data, i). length data - i)") auto

declare Update_loop.simps [simp del]

definition Update :: "env \<Rightarrow> fs \<Rightarrow> string \<Rightarrow> PasswordEntry \<Rightarrow> error option \<times> fs" where
  "Update ev fsys filename newEntry =
     (if length filename = 0 then (Some ErrFilenameEmpty, fsys)
      else case read ev fsys filename of
        Inl err \<Rightarrow> (Some err, fsys)
      | Inr data \<Rightarrow>
          (case Update_loop newEntry (elems data) 0 of
             (data', found) \<Rightarrow>
               if \<not> found then (Some ErrPwNotFound, fsys)
               else write_file ev fsys filename (Slice data')))"

text \<open>
  \<^verbatim>\<open>Remove\<close> removes a password entry: every entry of another name is appended to
  \<^verbatim>\<open>newData\<close>, which starts empty and not nil; \<^verbatim>\<open>found\<close> records an entry of the name.
\<close>

fun Remove_loop ::
    "string \<Rightarrow> PasswordEntry list \<Rightarrow> PasswordEntry list \<Rightarrow> bool \<Rightarrow> PasswordEntry list \<times> bool" where
  "Remove_loop name [] newData found = (newData, found)"
| "Remove_loop name (entry # rest) newData found =
     (if Name entry \<noteq> name then Remove_loop name rest (newData @ [entry]) found
      else Remove_loop name rest newData True)"

definition Remove :: "env \<Rightarrow> fs \<Rightarrow> string \<Rightarrow> string \<Rightarrow> error option \<times> fs" where
  "Remove ev fsys filename name =
     (if length filename = 0 then (Some ErrFilenameEmpty, fsys)
      else case read ev fsys filename of
        Inl err \<Rightarrow> (Some err, fsys)
      | Inr data \<Rightarrow>
          (case Remove_loop name (elems data) [] False of
             (newData, found) \<Rightarrow>
               if \<not> found then (Some ErrPwNotFound, fsys)
               else write_file ev fsys filename (Slice newData)))"

text \<open>
  A concrete environment for the examples: a delegate that stores the plaintext as it is,
  no failing system call, and new files created with the permission bits \<open>0644\<close>.
\<close>

definition plain_env :: env where
  "plain_env = \<lparr>stat_error = (\<lambda>p. False), scrypt_dec = Some, scrypt_enc = EncOk,
                 chmod_error = (\<lambda>p. False), create_perm = 420\<rparr>"


text \<open>The same environment, except that \<^verbatim>\<open>os.Stat\<close> fails on every path with an error
  other than \<^verbatim>\<open>fs.ErrNotExist\<close> (permission denied, say).\<close>

definition denied_env :: env where
  "denied_env = plain_env\<lparr>stat_error := (\<lambda>p. True)\<rparr>"

text \<open>
  An entry for the examples: a name with a character of two bytes, a user name with
  characters that the encoder escapes, and a password made of the line separator
  \<open>U+2028\<close> and a character of four bytes.
\<close>

definition entry_cafe :: PasswordEntry where
  "entry_cafe = \<lparr>Name = ''caf'' @ [CHR 0xC3, CHR 0xA9], Username = ''a<b'' @ [dq, bsl, CHR 0x0A],
                  Password = [CHR 0xE2, CHR 0x80, CHR 0xA8, CHR 0xF0, CHR 0x9F, CHR 0x98, CHR 0x80]\<rparr>"

text \<open>
  The tokens of the encoding of an entry and of a list of entries, for the proofs about
  decoding what \<^verbatim>\<open>json.Marshal\<close> writes.
\<close>

definition entry_tokens :: "PasswordEntry \<Rightarrow> token list" where
  "entry_tokens e =
     [TLBrace, TString ''name'', TColon, TString (coerce (Name e)), TComma,
      TString ''username'', TColon, TString (coerce (Username e)), TComma,
      TString ''password'', TColon, TString (coerce (Password e)), TRBrace]"

fun elems_tokens :: "PasswordEntry list \<Rightarrow> token list" where
  "elems_tokens [] = []"
| "elems_tokens [e] = entry_tokens e"
| "elems_tokens (e # es) = entry_tokens e @ TComma # elems_tokens es"

section \<open>Lemmas: the generator\<close>

lemma gen_loop_honest:
  assumes "i \<le> n" "length pw = n" "honest_source src n (length cs)"
  shows "gen_loop i n cs src pw = Inr (take i pw @ map (\<lambda>k. cs ! draw_idx (src k)) [i..<n])"
  using assms
proof (induction i n cs src pw rule: gen_loop.induct)
  case (1 i n charset src password)
  show ?case
  proof (cases "i < n")
    case False
    with 1 show ?thesis by (simp add: gen_loop.simps)
  next
    case True
    with "1.prems" obtain r where r: "r < length charset" "src i = DrawIdx r"
      by (auto simp: honest_source_def)
    have ci: "cryptorand_Int src i = Inr r"
      by (simp add: cryptorand_Int_def r)
    have IH: "gen_loop (Suc i) n charset src (password[i := charset ! r]) =
        Inr (take (Suc i) (password[i := charset ! r])
             @ map (\<lambda>k. charset ! draw_idx (src k)) [Suc i..<n])"
      using "1.IH"[OF True ci r(1)] True "1.prems" by simp
    have "take (Suc i) (password[i := charset ! r]) = take i password @ [charset ! r]"
      using True "1.prems" by (simp add: take_Suc_conv_app_nth)
    moreover have "[i..<n] = i # [Suc i..<n]"
      using True by (simp add: upt_conv_Cons)
    ultimately show ?thesis
      using True ci r IH by (simp add: gen_loop.simps[of i] draw_idx_def)
  qed
qed

lemma GeneratePassword_honest:
  assumes "0 < len" "charset \<noteq> []" "honest_source src (nat len) (length charset)"
  shows "GeneratePassword len charset src
         = Inr (map (\<lambda>k. charset ! draw_idx (src k)) [0..<nat len])"
  using assms gen_loop_honest[of 0 "nat len" "replicate (nat len) (CHR 0x00)" src charset]
  by (simp add: GeneratePassword_def)

lemma honest_source_idx:
  "honest_source src n mx \<Longrightarrow> k < n \<Longrightarrow> draw_idx (src k) < mx"
  by (auto simp: honest_source_def draw_idx_def)

lemma runes_ascii: "(\<forall>c\<in>set s. bv c < 0x80) \<Longrightarrow> runes s = map bv s"
proof (induction s)
  case Nil
  then show ?case by (simp add: runes.simps)
next
  case (Cons c s)
  then show ?case by (subst runes.simps) (simp add: DecodeRune.simps)
qed

lemma length_runes_le: "length (runes s) \<le> length s"
proof (induction s rule: runes.induct)
  case (1 s)
  show ?case
  proof (cases "s = []")
    case True
    then show ?thesis by (simp add: runes.simps)
  next
    case False
    have "length (runes s) = Suc (length (runes (drop (snd (DecodeRune s)) s)))"
      using False by (subst runes.simps) simp
    with 1[OF False] DecodeRune_size_pos[OF False] DecodeRune_size_le[of s] show ?thesis
      by simp
  qed
qed

lemma DecodeRune_width1:
  assumes "snd (DecodeRune s) = 1" "fst (DecodeRune s) \<noteq> RuneError"
  shows "s \<noteq> [] \<and> bv (hd s) < 0x80"
proof (cases s)
  case Nil
  with assms show ?thesis by simp
next
  case (Cons c0 cs)
  with assms show ?thesis
    by (auto simp: DecodeRune.simps Let_def split: if_splits)
qed

lemma single_byte_valid_ascii:
  "ValidString s \<Longrightarrow> length (runes s) = length s \<Longrightarrow> \<forall>c\<in>set s. bv c < 0x80"
proof (induction s rule: runes.induct)
  case (1 s)
  show ?case
  proof (cases "s = []")
    case True
    then show ?thesis by simp
  next
    case False
    let ?n = "snd (DecodeRune s)"
    have v: "\<not> (fst (DecodeRune s) = RuneError \<and> ?n = 1)" "ValidString (drop ?n s)"
      using "1.prems"(1) False by (subst (asm) ValidString.simps, simp)+
    have len: "Suc (length (runes (drop ?n s))) = length s"
      using "1.prems"(2) False by (subst (asm) runes.simps) simp
    have pos: "0 < ?n" using DecodeRune_size_pos[OF False] .
    have le: "length (runes (drop ?n s)) \<le> length s - ?n"
      using length_runes_le[of "drop ?n s"] by simp
    from len le pos DecodeRune_size_le[of s] have n1: "?n = 1" by arith
    with len have "length (runes (drop ?n s)) = length (drop ?n s)" by simp
    from "1.IH"[OF False v(2) this] have rest: "\<forall>c\<in>set (drop 1 s). bv c < 0x80"
      using n1 by simp
    from v(1) n1 have "fst (DecodeRune s) \<noteq> RuneError" by simp
    from DecodeRune_width1[OF n1 this] have "bv (hd s) < 0x80" by simp
    with rest False show ?thesis by (cases s) auto
  qed
qed

lemma multibyte_position:
  "length (runes s) \<noteq> length s \<Longrightarrow> \<exists>p<length s. 2 \<le> snd (DecodeRune (drop p s))"
proof (induction s rule: runes.induct)
  case (1 s)
  show ?case
  proof (cases "s = []")
    case True
    with "1.prems" show ?thesis by (simp add: runes.simps)
  next
    case False
    let ?n = "snd (DecodeRune s)"
    have pos: "0 < ?n" using DecodeRune_size_pos[OF False] .
    show ?thesis
    proof (cases "2 \<le> ?n")
      case True
      with False show ?thesis by (intro exI[of _ 0]) simp
    next
      case F2: False
      with pos have n1: "?n = 1" by arith
      have "Suc (length (runes (drop ?n s))) \<noteq> length s"
        using "1.prems" False by (subst (asm) runes.simps) simp
      with n1 False have "length (runes (drop ?n s)) \<noteq> length (drop ?n s)"
        by (cases s) auto
      from "1.IH"[OF False this] obtain p where p: "p < length (drop ?n s)"
        "2 \<le> snd (DecodeRune (drop p (drop ?n s)))" by blast
      then show ?thesis using n1
        by (intro exI[of _ "p + 1"]) (simp add: add.commute)
    qed
  qed
qed

lemma list_shape4:
  obtains "length s < 2" | c0 c1 where "s = [c0, c1]" | c0 c1 c2 where "s = [c0, c1, c2]"
    | c0 c1 c2 c3 cs where "s = c0 # c1 # c2 # c3 # cs"
proof (cases s)
  case Nil then show ?thesis using that(1) by simp
next
  case A: (Cons c0 s1)
  show ?thesis
  proof (cases s1)
    case Nil then show ?thesis using that(1) A by simp
  next
    case B: (Cons c1 s2)
    show ?thesis
    proof (cases s2)
      case Nil then show ?thesis using that(2) A B by simp
    next
      case C: (Cons c2 s3)
      show ?thesis
      proof (cases s3)
        case Nil then show ?thesis using that(3) A B C by simp
      next
        case (Cons c3 s4) then show ?thesis using that(4) A B C by simp
      qed
    qed
  qed
qed

lemma DecodeRune_take:
  assumes "2 \<le> snd (DecodeRune s)"
  shows "DecodeRune (take (snd (DecodeRune s)) s) = DecodeRune s"
proof (cases s rule: list_shape4)
  case 1
  with assms DecodeRune_size_le[of s] show ?thesis by simp
next
  case (2 c0 c1)
  with assms DecodeRune_size_le[of s] have "snd (DecodeRune s) = 2" by simp
  with 2 show ?thesis by simp
next
  case (3 c0 c1 c2)
  consider "rune_size (bv c0) = 0" | "rune_size (bv c0) = 1" | "rune_size (bv c0) = 2"
    | "rune_size (bv c0) = 3" | "rune_size (bv c0) = 4"
    using rune_size_cases[of "bv c0"] by auto
  then show ?thesis
    using assms 3
    by cases (auto simp: DecodeRune.simps Let_def split: if_splits)
next
  case (4 c0 c1 c2 c3 cs)
  consider "rune_size (bv c0) = 0" | "rune_size (bv c0) = 1" | "rune_size (bv c0) = 2"
    | "rune_size (bv c0) = 3" | "rune_size (bv c0) = 4"
    using rune_size_cases[of "bv c0"] by auto
  then show ?thesis
    using assms 4
    by cases (auto simp: DecodeRune.simps Let_def split: if_splits)
qed

lemma map_nth_offset:
  "p + k \<le> length cs \<Longrightarrow> map (\<lambda>i. cs ! (p + i)) [0..<k] = take k (drop p cs)"
  by (rule nth_equalityI) simp_all

lemma runes_single:
  assumes "2 \<le> snd (DecodeRune s)"
  shows "length (runes (take (snd (DecodeRune s)) s)) = 1"
proof -
  let ?k = "snd (DecodeRune s)"
  let ?t = "take ?k s"
  have le: "?k \<le> length s" by (rule DecodeRune_size_le)
  have ne: "?t \<noteq> []" using assms le by auto
  have d: "DecodeRune ?t = DecodeRune s" by (rule DecodeRune_take[OF assms])
  have "drop (snd (DecodeRune ?t)) ?t = []" using d le by simp
  then show ?thesis using ne
    by (subst runes.simps) (simp add: runes.simps[of "[]"])
qed

lemma guarantee_ascii:
  assumes ascii: "\<forall>c\<in>set charset. bv c < 0x80"
    and "0 < len" "honest_source src (nat len) (length charset)"
    and res: "GeneratePassword len charset src = Inr pw"
  shows "char_guarantee len charset pw"
proof -
  have ne: "charset \<noteq> []"
    using res assms(2) by (auto simp: GeneratePassword_def)
  have pw: "pw = map (\<lambda>k. charset ! draw_idx (src k)) [0..<nat len]"
    using GeneratePassword_honest[OF assms(2) ne assms(3)] res by simp
  have sub: "set pw \<subseteq> set charset"
    using honest_source_idx[OF assms(3)] by (auto simp: pw)
  with ascii have "\<forall>c\<in>set pw. bv c < 0x80" by blast
  then have "runes pw = map bv pw" by (rule runes_ascii)
  moreover have "runes charset = map bv charset" using ascii by (rule runes_ascii)
  ultimately show ?thesis
    using sub by (auto simp: char_guarantee_def pw)
qed

lemma guarantee_fails:
  assumes "\<not> single_byte_chars charset"
  shows "\<exists>len src pw. 0 < len \<and> honest_source src (nat len) (length charset)
           \<and> GeneratePassword len charset src = Inr pw \<and> \<not> char_guarantee len charset pw"
proof -
  from assms obtain p where p: "p < length charset" "2 \<le> snd (DecodeRune (drop p charset))"
    using multibyte_position[of charset] by (auto simp: single_byte_chars_def)
  let ?k = "snd (DecodeRune (drop p charset))"
  let ?src = "\<lambda>i. DrawIdx (p + i)"
  let ?pw = "take ?k (drop p charset)"
  have le: "p + ?k \<le> length charset"
    using DecodeRune_size_le[of "drop p charset"] p(1) by simp
  have ne: "charset \<noteq> []" using p(1) by auto
  have hon: "honest_source ?src (nat (int ?k)) (length charset)"
    using le by (auto simp: honest_source_def)
  have pos: "0 < int ?k" using p(2) by simp
  have "GeneratePassword (int ?k) charset ?src = Inr (map (\<lambda>i. charset ! (p + i)) [0..<?k])"
    using GeneratePassword_honest[OF pos ne hon] by (simp add: draw_idx_def)
  then have gen: "GeneratePassword (int ?k) charset ?src = Inr ?pw"
    by (simp add: map_nth_offset[OF le])
  have "length (runes ?pw) = 1" by (rule runes_single[OF p(2)])
  with p(2) have "\<not> char_guarantee (int ?k) charset ?pw"
    by (simp add: char_guarantee_def)
  with pos hon gen show ?thesis by blast
qed

section \<open>Lemmas: the loops of the store\<close>

lemma read_err_cases:
  "read ev fsys filename = Inl err \<Longrightarrow>
     err \<in> {ErrPwFileNotFound, ErrStat, ErrIsDirectory, ErrScryptDec, ErrInvalidJSON}"
  by (auto simp: read_def split: sum.splits stat_err.splits node.splits option.splits)

lemma read_ENOENT: "os_Stat ev fsys filename = Inl ENOENT \<Longrightarrow> read ev fsys filename = Inl ErrPwFileNotFound"
  by (simp add: read_def)

lemma write_file_err_cases:
  "write_file ev fsys filename data = (Some err, fs') \<Longrightarrow>
     err \<in> {ErrStdinPipe, ErrScryptStart, PanicNilDereference, ErrScryptEnc, ErrChmod}"
  by (auto simp: write_file_def Let_def split: enc_result.splits option.splits node.splits if_splits)

lemma write_file_ok:
  "write_file ev fsys filename data = (None, fs') \<longleftrightarrow>
     (\<exists>ct. scrypt_enc ev (Marshal data) = EncOk ct \<and> fsys filename \<noteq> Some Dir
        \<and> \<not> chmod_error ev filename \<and> fs' = fsys(filename \<mapsto> File ct perm_0600))"
  by (auto simp: write_file_def Let_def split: enc_result.splits option.splits node.splits if_splits)

lemma Add_loop_None: "Add_loop newEntry xs = None \<longleftrightarrow> (\<forall>e\<in>set xs. Name e \<noteq> Name newEntry)"
  by (induction xs) auto

lemma Add_loop_Some: "Add_loop newEntry xs = Some err \<Longrightarrow> err = ErrPwAlreadyExists"
  by (induction xs) (auto split: if_splits)

lemma Add_loop_exists:
  "(\<exists>e\<in>set xs. Name e = Name newEntry) \<Longrightarrow> Add_loop newEntry xs = Some ErrPwAlreadyExists"
  by (induction xs) auto

lemma Remove_loop_eq:
  "Remove_loop name xs newData found =
     (newData @ filter (\<lambda>e. Name e \<noteq> name) xs, found \<or> (\<exists>e\<in>set xs. Name e = name))"
  by (induction xs arbitrary: newData found) auto

lemma Update_loop_none:
  "\<forall>j. i \<le> j \<and> j < length data \<longrightarrow> Name (data ! j) \<noteq> Name newEntry
     \<Longrightarrow> Update_loop newEntry data i = (data, False)"
proof (induction newEntry data i rule: Update_loop.induct)
  case (1 newEntry data i)
  show ?case
  proof (cases "i < length data")
    case False
    then show ?thesis by (simp add: Update_loop.simps)
  next
    case True
    with "1.prems" have ne: "Name (data ! i) \<noteq> Name newEntry" by simp
    have "Update_loop newEntry data (Suc i) = (data, False)"
      using "1.IH"[OF True ne] "1.prems" by simp
    with True ne show ?thesis by (simp add: Update_loop.simps[of newEntry data i])
  qed
qed

lemma Update_loop_first:
  "k \<le> i \<Longrightarrow> i < length data \<Longrightarrow> Name (data ! i) = Name newEntry
     \<Longrightarrow> \<forall>j. k \<le> j \<and> j < i \<longrightarrow> Name (data ! j) \<noteq> Name newEntry
     \<Longrightarrow> Update_loop newEntry data k = (data[i := newEntry], True)"
proof (induction newEntry data k rule: Update_loop.induct)
  case (1 newEntry data k)
  from "1.prems" have kl: "k < length data" by simp
  show ?case
  proof (cases "k = i")
    case True
    with "1.prems" show ?thesis by (simp add: Update_loop.simps[of newEntry data i])
  next
    case False
    with "1.prems" have ne: "Name (data ! k) \<noteq> Name newEntry" and lt: "Suc k \<le> i" by auto
    have "Update_loop newEntry data (Suc k) = (data[i := newEntry], True)"
      using "1.IH"[OF kl ne lt] "1.prems" by simp
    with kl ne show ?thesis by (simp add: Update_loop.simps[of newEntry data k])
  qed
qed

lemma Update_loop_found:
  "Update_loop newEntry data 0 = (data', True) \<longleftrightarrow>
     (\<exists>i<length data. Name (data ! i) = Name newEntry
        \<and> (\<forall>j<i. Name (data ! j) \<noteq> Name newEntry) \<and> data' = data[i := newEntry])"
proof (cases "\<exists>i<length data. Name (data ! i) = Name newEntry")
  case False
  then have "Update_loop newEntry data 0 = (data, False)"
    by (intro Update_loop_none) auto
  with False show ?thesis by auto
next
  case True
  define i where "i = (LEAST i. i < length data \<and> Name (data ! i) = Name newEntry)"
  from True have i: "i < length data \<and> Name (data ! i) = Name newEntry"
    unfolding i_def by (rule LeastI_ex)
  have least: "\<And>j. j < i \<Longrightarrow> \<not> (j < length data \<and> Name (data ! j) = Name newEntry)"
    unfolding i_def by (rule not_less_Least)
  with i have min: "\<forall>j<i. Name (data ! j) \<noteq> Name newEntry"
    by (metis less_trans)
  have eq: "Update_loop newEntry data 0 = (data[i := newEntry], True)"
    using i min by (intro Update_loop_first) auto
  show ?thesis
  proof
    assume "Update_loop newEntry data 0 = (data', True)"
    with eq have "data' = data[i := newEntry]" by simp
    with i min show "\<exists>i<length data. Name (data ! i) = Name newEntry
        \<and> (\<forall>j<i. Name (data ! j) \<noteq> Name newEntry) \<and> data' = data[i := newEntry]"
      by blast
  next
    assume "\<exists>i<length data. Name (data ! i) = Name newEntry
        \<and> (\<forall>j<i. Name (data ! j) \<noteq> Name newEntry) \<and> data' = data[i := newEntry]"
    then obtain i' where i': "i' < length data" "Name (data ! i') = Name newEntry"
        "\<forall>j<i'. Name (data ! j) \<noteq> Name newEntry" "data' = data[i' := newEntry]"
      by blast
    then show "Update_loop newEntry data 0 = (data', True)"
      by (simp add: Update_loop_first)
  qed
qed

lemma Get_loop_append_new:
  "\<forall>e\<in>set xs. Name e \<noteq> Name r \<Longrightarrow> Get_loop (Name r) (xs @ [r]) = Inr r"
  by (induction xs) auto

lemma Get_loop_NotFound: "Get_loop name xs = Inl err \<Longrightarrow> err = ErrPwNotFound"
  by (induction xs) (auto split: if_splits)



section \<open>Evaluation of the model on concrete inputs\<close>

lemma byte_eq_iff: "byte n = c \<longleftrightarrow> n mod 256 = bv c"
proof
  assume "byte n = c"
  then have "bv (byte n) = bv c" by simp
  then show "n mod 256 = bv c" by simp
next
  assume "n mod 256 = bv c"
  then have "bv (byte n) = bv c" by simp
  then show "byte n = c" by (simp only: of_char_eq_iff)
qed

lemmas json_eval = byte_eq_iff
  Unmarshal_def tokenize.simps tok_def lex_literal_def lex_number_def lex_int_def lex_frac_def
  lex_exp_def isSpace_def isDigit_def emit_def array_def array_elems.simps element_def
  object_def object_members.simps member_value_def field_of_key_def zero_entry_def
  skip.simps maxNestingDepth_def hexval_def EncodeRune_def DecodeRune.simps rune_size_def
  accept_lo_def accept_hi_def RuneError_def Let_def foldRune_def
  marshal_entry_def appendString_def htmlSafe_def escape_byte_def hex_digit_def

lemmas store_eval =
  plain_env_def denied_env_def os_Stat_def read_def write_file_def Init_def Get_def List_def Add_def
  Update_def Remove_def append_entry_def Update_loop.simps perm_0600_def

lemmas utf8_eval = ValidString.simps DecodeRune.simps rune_size_def accept_lo_def accept_hi_def
  RuneError_def Let_def

section \<open>Lemmas: UTF-8 decoding and encoding\<close>

lemma DecodeRune_ascii: "bv c0 < 0x80 \<Longrightarrow> DecodeRune (c0 # t) = (bv c0, 1)"
  by (simp add: DecodeRune.simps Let_def)

lemma DecodeRune2:
  "0xC2 \<le> bv c0 \<Longrightarrow> bv c0 < 0xE0 \<Longrightarrow> 0x80 \<le> bv c1 \<Longrightarrow> bv c1 \<le> 0xBF
   \<Longrightarrow> DecodeRune (c0 # c1 # t) = ((bv c0 mod 32) * 64 + bv c1 mod 64, 2)"
  by (simp add: DecodeRune.simps Let_def rune_size_def accept_lo_def accept_hi_def)

lemma DecodeRune3:
  "0xE0 \<le> bv c0 \<Longrightarrow> bv c0 < 0xF0 \<Longrightarrow> accept_lo (bv c0) \<le> bv c1 \<Longrightarrow> bv c1 \<le> accept_hi (bv c0)
   \<Longrightarrow> 0x80 \<le> bv c2 \<Longrightarrow> bv c2 \<le> 0xBF
   \<Longrightarrow> DecodeRune (c0 # c1 # c2 # t)
       = ((bv c0 mod 16) * 4096 + (bv c1 mod 64) * 64 + bv c2 mod 64, 3)"
  by (simp add: DecodeRune.simps Let_def rune_size_def)

lemma DecodeRune4:
  "0xF0 \<le> bv c0 \<Longrightarrow> bv c0 < 0xF5 \<Longrightarrow> accept_lo (bv c0) \<le> bv c1 \<Longrightarrow> bv c1 \<le> accept_hi (bv c0)
   \<Longrightarrow> 0x80 \<le> bv c2 \<Longrightarrow> bv c2 \<le> 0xBF \<Longrightarrow> 0x80 \<le> bv c3 \<Longrightarrow> bv c3 \<le> 0xBF
   \<Longrightarrow> DecodeRune (c0 # c1 # c2 # c3 # t)
       = ((bv c0 mod 8) * 262144 + (bv c1 mod 64) * 4096 + (bv c2 mod 64) * 64 + bv c3 mod 64, 4)"
  by (simp add: DecodeRune.simps Let_def rune_size_def)

text \<open>The shapes of a decoding step.\<close>

lemma DecodeRune_shapes:
  assumes "s \<noteq> []"
  shows "(\<exists>c0 t. s = c0 # t \<and> bv c0 < 0x80 \<and> DecodeRune s = (bv c0, 1))
    \<or> (\<exists>c0 t. s = c0 # t \<and> 0x80 \<le> bv c0 \<and> DecodeRune s = (RuneError, 1))
    \<or> (\<exists>c0 c1 t. s = c0 # c1 # t \<and> 0xC2 \<le> bv c0 \<and> bv c0 < 0xE0 \<and> 0x80 \<le> bv c1 \<and> bv c1 \<le> 0xBF)
    \<or> (\<exists>c0 c1 c2 t. s = c0 # c1 # c2 # t \<and> 0xE0 \<le> bv c0 \<and> bv c0 < 0xF0
          \<and> accept_lo (bv c0) \<le> bv c1 \<and> bv c1 \<le> accept_hi (bv c0) \<and> 0x80 \<le> bv c2 \<and> bv c2 \<le> 0xBF)
    \<or> (\<exists>c0 c1 c2 c3 t. s = c0 # c1 # c2 # c3 # t \<and> 0xF0 \<le> bv c0 \<and> bv c0 < 0xF5
          \<and> accept_lo (bv c0) \<le> bv c1 \<and> bv c1 \<le> accept_hi (bv c0) \<and> 0x80 \<le> bv c2 \<and> bv c2 \<le> 0xBF
          \<and> 0x80 \<le> bv c3 \<and> bv c3 \<le> 0xBF)"
proof -
  from assms obtain c0 cs where s: "s = c0 # cs" by (cases s) auto
  consider "bv c0 < 0x80" | "0x80 \<le> bv c0" "rune_size (bv c0) = 0" | "rune_size (bv c0) = 2"
    | "rune_size (bv c0) = 3" | "rune_size (bv c0) = 4"
    using rune_size_cases[of "bv c0"] by (auto simp: rune_size_def split: if_splits)
  then show ?thesis
  proof cases
    case 1
    with s show ?thesis by (simp add: DecodeRune_ascii)
  next
    case 2
    with s show ?thesis by (simp add: DecodeRune.simps Let_def)
  next
    case 3
    then have r: "0xC2 \<le> bv c0" "bv c0 < 0xE0"
      by (auto simp: rune_size_def split: if_splits)
    show ?thesis
    proof (cases cs)
      case Nil
      with s 3 r show ?thesis by (simp add: DecodeRune.simps Let_def)
    next
      case (Cons c1 t)
      show ?thesis
      proof (cases "0x80 \<le> bv c1 \<and> bv c1 \<le> 0xBF")
        case True
        with s Cons r show ?thesis by simp
      next
        case False
        with s Cons 3 r have "DecodeRune s = (RuneError, 1)"
          by (auto simp: DecodeRune.simps Let_def accept_lo_def accept_hi_def)
        with s r show ?thesis by simp
      qed
    qed
  next
    case 4
    then have r: "0xE0 \<le> bv c0" "bv c0 < 0xF0"
      by (auto simp: rune_size_def split: if_splits)
    show ?thesis
    proof (cases "\<exists>c1 c2 t. cs = c1 # c2 # t \<and> accept_lo (bv c0) \<le> bv c1 \<and> bv c1 \<le> accept_hi (bv c0)
        \<and> 0x80 \<le> bv c2 \<and> bv c2 \<le> 0xBF")
      case True
      with s r show ?thesis by auto
    next
      case False
      have "DecodeRune s = (RuneError, 1)"
      proof (cases cs)
        case Nil
        with s 4 r show ?thesis by (simp add: DecodeRune.simps Let_def)
      next
        case c1: (Cons c1 t1)
        show ?thesis
        proof (cases t1)
          case Nil
          with s 4 r c1 show ?thesis by (simp add: DecodeRune.simps Let_def)
        next
          case (Cons c2 t)
          with False c1 have "\<not> (accept_lo (bv c0) \<le> bv c1 \<and> bv c1 \<le> accept_hi (bv c0)
             \<and> 0x80 \<le> bv c2 \<and> bv c2 \<le> 0xBF)" by simp
          with s 4 r c1 Cons show ?thesis
            by (auto simp: DecodeRune.simps Let_def)
        qed
      qed
      with s r show ?thesis by simp
    qed
  next
    case 5
    then have r: "0xF0 \<le> bv c0" "bv c0 < 0xF5"
      by (auto simp: rune_size_def split: if_splits)
    show ?thesis
    proof (cases "\<exists>c1 c2 c3 t. cs = c1 # c2 # c3 # t \<and> accept_lo (bv c0) \<le> bv c1 \<and> bv c1 \<le> accept_hi (bv c0)
        \<and> 0x80 \<le> bv c2 \<and> bv c2 \<le> 0xBF \<and> 0x80 \<le> bv c3 \<and> bv c3 \<le> 0xBF")
      case True
      with s r show ?thesis by auto
    next
      case False
      have "DecodeRune s = (RuneError, 1)"
      proof (cases cs)
        case Nil
        with s 5 r show ?thesis by (simp add: DecodeRune.simps Let_def)
      next
        case c1: (Cons c1 t1)
        show ?thesis
        proof (cases t1)
          case Nil
          with s 5 r c1 show ?thesis by (simp add: DecodeRune.simps Let_def)
        next
          case c2: (Cons c2 t2)
          show ?thesis
          proof (cases t2)
            case Nil
            with s 5 r c1 c2 show ?thesis by (simp add: DecodeRune.simps Let_def)
          next
            case (Cons c3 t)
            with False c1 c2 have "\<not> (accept_lo (bv c0) \<le> bv c1 \<and> bv c1 \<le> accept_hi (bv c0)
               \<and> 0x80 \<le> bv c2 \<and> bv c2 \<le> 0xBF \<and> 0x80 \<le> bv c3 \<and> bv c3 \<le> 0xBF)" by simp
            with s 5 r c1 c2 Cons show ?thesis
              by (auto simp: DecodeRune.simps Let_def)
          qed
        qed
      qed
      with s r show ?thesis by simp
    qed
  qed
qed

lemma dm2: "b < 64 \<Longrightarrow> (a * 64 + b) div 64 = (a::nat) \<and> (a * 64 + b) mod 64 = b"
  by simp

lemma dm3:
  assumes "b < 64" "c < 64"
  shows "(a * 4096 + b * 64 + c) div 4096 = (a::nat) \<and> ((a * 4096 + b * 64 + c) div 64) mod 64 = b
     \<and> (a * 4096 + b * 64 + c) mod 64 = c"
proof -
  let ?r = "a * 4096 + b * 64 + c"
  have e: "?r = (a * 64 + b) * 64 + c" by simp
  note x = dm2[OF assms(2), of "a * 64 + b"]
  note y = dm2[OF assms(1), of a]
  have d1: "?r div 64 = a * 64 + b"
    by (subst e) (rule x[THEN conjunct1])
  have m1: "?r mod 64 = c"
    by (subst e) (rule x[THEN conjunct2])
  have "?r div 4096 = (?r div 64) div 64"
    by (simp add: div_mult2_eq[symmetric])
  also have "\<dots> = a" by (subst d1) (rule y[THEN conjunct1])
  finally have d2: "?r div 4096 = a" .
  have m2: "(?r div 64) mod 64 = b"
    by (subst d1) (rule y[THEN conjunct2])
  from d2 m2 m1 show ?thesis by blast
qed

lemma dm4:
  assumes "b < 64" "c < 64" "d < 64"
  shows "(a * 262144 + b * 4096 + c * 64 + d) div 262144 = (a::nat)
     \<and> ((a * 262144 + b * 4096 + c * 64 + d) div 4096) mod 64 = b
     \<and> ((a * 262144 + b * 4096 + c * 64 + d) div 64) mod 64 = c
     \<and> (a * 262144 + b * 4096 + c * 64 + d) mod 64 = d"
proof -
  let ?r = "a * 262144 + b * 4096 + c * 64 + d"
  let ?q = "a * 4096 + b * 64 + c"
  have e: "?r = ?q * 64 + d" by simp
  note x = dm2[OF assms(3), of ?q]
  note t = dm3[OF assms(1) assms(2), of a]
  have d1: "?r div 64 = ?q"
    by (subst e) (rule x[THEN conjunct1])
  have m1: "?r mod 64 = d"
    by (subst e) (rule x[THEN conjunct2])
  have "?r div 4096 = (?r div 64) div 64"
    by (simp add: div_mult2_eq[symmetric])
  then have d2: "?r div 4096 = ?q div 64" by (simp only: d1)
  have "?r div 262144 = (?r div 64) div 4096"
    by (simp add: div_mult2_eq[symmetric])
  then have "?r div 262144 = ?q div 4096" by (simp only: d1)
  with t have d3: "?r div 262144 = a" by simp
  have m3: "(?r div 4096) mod 64 = b" by (simp only: d2 t)
  have m2: "(?r div 64) mod 64 = c" by (simp only: d1 t)
  from d3 m3 m2 m1 show ?thesis by blast
qed

lemma mod_offset:
  fixes a :: nat
  assumes "k * m \<le> a" "a < k * m + m"
  shows "a mod m = a - k * m"
proof -
  have "a = (a - k * m) + k * m" using assms(1) by simp
  then have "a mod m = ((a - k * m) + k * m) mod m" by simp
  also have "\<dots> = (a - k * m) mod m" by simp
  also have "\<dots> = a - k * m"
  proof (rule mod_less)
    from assms show "a - k * m < m" by simp
  qed
  finally show ?thesis .
qed

lemma mod32_lead: "194 \<le> a \<Longrightarrow> a < 224 \<Longrightarrow> a mod 32 = a - (192::nat)"
  using mod_offset[of 6 32 a] by simp
lemma mod64_cont: "128 \<le> b \<Longrightarrow> b \<le> 191 \<Longrightarrow> b mod 64 = b - (128::nat)"
  using mod_offset[of 2 64 b] by simp
lemma mod16_lead: "224 \<le> a \<Longrightarrow> a < 240 \<Longrightarrow> a mod 16 = a - (224::nat)"
  using mod_offset[of 14 16 a] by simp
lemma mod8_lead: "240 \<le> a \<Longrightarrow> a < 245 \<Longrightarrow> a mod 8 = a - (240::nat)"
  using mod_offset[of 30 8 a] by simp

lemma byte_bv: "byte (bv c) = c"
  by simp

lemma Encode2:
  assumes "0xC2 \<le> bv c0" "bv c0 < 0xE0" "0x80 \<le> bv c1" "bv c1 \<le> 0xBF"
  shows "EncodeRune ((bv c0 mod 32) * 64 + bv c1 mod 64) = [c0, c1]"
proof -
  define a b where "a = bv c0 - 192" and "b = bv c1 - 128"
  have A: "bv c0 = 192 + a" "2 \<le> a" "a < 32" and B: "bv c1 = 128 + b" "b < 64"
    using assms by (simp_all add: a_def b_def)
  have ma: "bv c0 mod 32 = a" using mod32_lead[of "bv c0"] assms by (simp add: a_def)
  have mb: "bv c1 mod 64 = b" using mod64_cont[of "bv c1"] assms by (simp add: b_def)
  define r where "r = a * 64 + b"
  have lo: "\<not> r \<le> 127" using A B by (simp add: r_def)
  have hi: "r \<le> 2047" using A B by (simp add: r_def)
  have d: "r div 64 = a" "r mod 64 = b" using dm2[OF B(2), of a] by (simp_all add: r_def)
  have "EncodeRune r = [byte (192 + a), byte (128 + b)]"
    using lo hi by (simp add: EncodeRune_def d)
  also have "\<dots> = [c0, c1]" using A(1) B(1) byte_bv[of c0] byte_bv[of c1] by simp
  finally show ?thesis by (simp only: r_def ma mb)
qed

lemma Encode3:
  assumes "0xE0 \<le> bv c0" "bv c0 < 0xF0" "accept_lo (bv c0) \<le> bv c1" "bv c1 \<le> accept_hi (bv c0)"
    "0x80 \<le> bv c2" "bv c2 \<le> 0xBF"
  shows "EncodeRune ((bv c0 mod 16) * 4096 + (bv c1 mod 64) * 64 + bv c2 mod 64) = [c0, c1, c2]"
proof -
  define a b c where "a = bv c0 - 224" and "b = bv c1 - 128" and "c = bv c2 - 128"
  have b1: "128 \<le> bv c1" "bv c1 \<le> 191"
    using assms(3,4) by (auto simp: accept_lo_def accept_hi_def split: if_splits)
  have A: "bv c0 = 224 + a" "a < 16" and B: "bv c1 = 128 + b" "b < 64"
    and C: "bv c2 = 128 + c" "c < 64"
    using assms b1 by (simp_all add: a_def b_def c_def)
  have e0: "a = 0 \<longrightarrow> 32 \<le> b"
    using assms(3) A(1) B(1) by (auto simp: accept_lo_def split: if_splits)
  have ed: "a = 13 \<longrightarrow> b \<le> 31"
    using assms(4) A(1) B(1) by (auto simp: accept_hi_def split: if_splits)
  have ma: "bv c0 mod 16 = a" using mod16_lead[of "bv c0"] assms by (simp add: a_def)
  have mb: "bv c1 mod 64 = b" using mod64_cont[of "bv c1"] b1 by (simp add: b_def)
  have mc: "bv c2 mod 64 = c" using mod64_cont[of "bv c2"] assms by (simp add: c_def)
  define r where "r = a * 4096 + b * 64 + c"
  have lo: "\<not> r \<le> 2047" using A B C e0 by (cases "a = 0") (simp_all add: r_def)
  have hi: "r \<le> 65535" using A B C by (simp add: r_def)
  have ns: "\<not> (55296 \<le> r \<and> r \<le> 57343)"
  proof (cases "a = 13")
    case True
    with ed B C show ?thesis by (simp add: r_def)
  next
    case False
    then have "a \<le> 12 \<or> 14 \<le> a" by arith
    then show ?thesis using B C by (auto simp: r_def)
  qed
  have hi2: "\<not> 1114111 < r" using hi by simp
  have l1: "\<not> r \<le> 127" using lo by simp
  have d: "r div 4096 = a" "(r div 64) mod 64 = b" "r mod 64 = c"
    using dm3[OF B(2) C(2), of a] by (simp_all add: r_def)
  have "EncodeRune r = [byte (224 + a), byte (128 + b), byte (128 + c)]"
    using lo hi ns hi2 l1 by (auto simp: EncodeRune_def d)
  also have "\<dots> = [c0, c1, c2]"
    using A(1) B(1) C(1) byte_bv[of c0] byte_bv[of c1] byte_bv[of c2] by simp
  finally show ?thesis by (simp only: r_def ma mb mc)
qed

lemma Encode4:
  assumes "0xF0 \<le> bv c0" "bv c0 < 0xF5" "accept_lo (bv c0) \<le> bv c1" "bv c1 \<le> accept_hi (bv c0)"
    "0x80 \<le> bv c2" "bv c2 \<le> 0xBF" "0x80 \<le> bv c3" "bv c3 \<le> 0xBF"
  shows "EncodeRune ((bv c0 mod 8) * 262144 + (bv c1 mod 64) * 4096 + (bv c2 mod 64) * 64 + bv c3 mod 64)
         = [c0, c1, c2, c3]"
proof -
  define a b c d where "a = bv c0 - 240" and "b = bv c1 - 128" and "c = bv c2 - 128"
    and "d = bv c3 - 128"
  have b1: "128 \<le> bv c1" "bv c1 \<le> 191"
    using assms(3,4) by (auto simp: accept_lo_def accept_hi_def split: if_splits)
  have A: "bv c0 = 240 + a" "a < 5" and B: "bv c1 = 128 + b" "b < 64"
    and C: "bv c2 = 128 + c" "c < 64" and D: "bv c3 = 128 + d" "d < 64"
    using assms b1 by (simp_all add: a_def b_def c_def d_def)
  have e0: "a = 0 \<longrightarrow> 16 \<le> b"
    using assms(3) A(1) B(1) by (auto simp: accept_lo_def split: if_splits)
  have e4: "a = 4 \<longrightarrow> b \<le> 15"
    using assms(4) A(1) B(1) by (auto simp: accept_hi_def split: if_splits)
  have ma: "bv c0 mod 8 = a" using mod8_lead[of "bv c0"] assms by (simp add: a_def)
  have mb: "bv c1 mod 64 = b" using mod64_cont[of "bv c1"] b1 by (simp add: b_def)
  have mc: "bv c2 mod 64 = c" using mod64_cont[of "bv c2"] assms by (simp add: c_def)
  have md: "bv c3 mod 64 = d" using mod64_cont[of "bv c3"] assms by (simp add: d_def)
  define r where "r = a * 262144 + b * 4096 + c * 64 + d"
  have lo: "\<not> r \<le> 65535" using A B C D e0 by (cases "a = 0") (simp_all add: r_def)
  have hi: "\<not> 1114111 < r"
  proof (cases "a = 4")
    case True
    with e4 B C D show ?thesis by (simp add: r_def)
  next
    case False
    with A have "a \<le> 3" by simp
    then show ?thesis using B C D by (simp add: r_def)
  qed
  have l1: "\<not> r \<le> 127" "\<not> r \<le> 2047" "\<not> (55296 \<le> r \<and> r \<le> 57343)" using lo by simp_all
  have dv: "r div 262144 = a" "(r div 4096) mod 64 = b" "(r div 64) mod 64 = c" "r mod 64 = d"
    using dm4[OF B(2) C(2) D(2), of a] by (simp_all add: r_def)
  have "EncodeRune r = [byte (240 + a), byte (128 + b), byte (128 + c), byte (128 + d)]"
    using lo hi l1 by (simp add: EncodeRune_def dv)
  also have "\<dots> = [c0, c1, c2, c3]"
    using A(1) B(1) C(1) D(1) byte_bv[of c0] byte_bv[of c1] byte_bv[of c2] byte_bv[of c3] by simp
  finally show ?thesis by (simp only: r_def ma mb mc md)
qed

lemma DecodeRune_valid:
  assumes "0x80 \<le> bv c0"
    and "\<not> (fst (DecodeRune (c0 # cs)) = RuneError \<and> snd (DecodeRune (c0 # cs)) = 1)"
  shows "EncodeRune (fst (DecodeRune (c0 # cs))) = take (snd (DecodeRune (c0 # cs))) (c0 # cs)
     \<and> DecodeRune (take (snd (DecodeRune (c0 # cs))) (c0 # cs) @ t) = DecodeRune (c0 # cs)
     \<and> 2 \<le> snd (DecodeRune (c0 # cs))
     \<and> length (take (snd (DecodeRune (c0 # cs))) (c0 # cs)) = snd (DecodeRune (c0 # cs))"
proof -
  let ?s = "c0 # cs"
  from DecodeRune_shapes[of ?s] assms
  consider
    (2) c1 t' where "cs = c1 # t'" "0xC2 \<le> bv c0" "bv c0 < 0xE0" "0x80 \<le> bv c1" "bv c1 \<le> 0xBF"
  | (3) c1 c2 t' where "cs = c1 # c2 # t'" "0xE0 \<le> bv c0" "bv c0 < 0xF0"
      "accept_lo (bv c0) \<le> bv c1" "bv c1 \<le> accept_hi (bv c0)" "0x80 \<le> bv c2" "bv c2 \<le> 0xBF"
  | (4) c1 c2 c3 t' where "cs = c1 # c2 # c3 # t'" "0xF0 \<le> bv c0" "bv c0 < 0xF5"
      "accept_lo (bv c0) \<le> bv c1" "bv c1 \<le> accept_hi (bv c0)" "0x80 \<le> bv c2" "bv c2 \<le> 0xBF"
      "0x80 \<le> bv c3" "bv c3 \<le> 0xBF"
    by fastforce
  then show ?thesis
  proof cases
    case 2
    note d = DecodeRune2[OF 2(2-5)]
    show ?thesis
      unfolding 2(1) d[of t'] using Encode2[OF 2(2-5)] d[of t] by simp
  next
    case 3
    note d = DecodeRune3[OF 3(2-7)]
    show ?thesis
      unfolding 3(1) d[of t'] using Encode3[OF 3(2-7)] d[of t] by simp
  next
    case 4
    note d = DecodeRune4[OF 4(2-9)]
    show ?thesis
      unfolding 4(1) d[of t'] using Encode4[OF 4(2-9)] d[of t] by simp
  qed
qed

lemma coerce_valid: "ValidString s \<Longrightarrow> coerce s = s"
proof (induction s rule: coerce.induct)
  case 1
  show ?case by simp
next
  case (2 c cs)
  let ?n = "snd (DecodeRune (c # cs))"
  from "2.prems" have v: "\<not> (fst (DecodeRune (c # cs)) = RuneError \<and> ?n = 1)"
      "ValidString (drop ?n (c # cs))"
    by (subst (asm) ValidString.simps, simp)+
  show ?case
  proof (cases "bv c < 0x80")
    case True
    then have "?n = 1" by (simp add: DecodeRune_ascii)
    with v have "ValidString cs" by simp
    with True "2.IH"(1) show ?thesis by simp
  next
    case False
    from "2.IH"(3)[OF False v(1) v(2)] False v(1) show ?thesis by auto
  qed
qed

section \<open>Lemmas: decoding what the encoder writes\<close>

lemma hexval_hex_digit: "n < 16 \<Longrightarrow> hexval (hex_digit n) = Some n"
proof -
  assume "n < 16"
  then consider "n = 0" | "n = 1" | "n = 2" | "n = 3" | "n = 4" | "n = 5" | "n = 6" | "n = 7"
    | "n = 8" | "n = 9" | "n = 10" | "n = 11" | "n = 12" | "n = 13" | "n = 14" | "n = 15"
    by atomize_elim presburger
  then show ?thesis
    by cases (simp_all add: hex_digit_def hexval_def)
qed

lemma emit_Some_eq [simp]: "emit out (Some (s, rest)) = Some (out @ s, rest)"
  by (simp add: emit_def)

lemma lex_safe: "htmlSafe c \<Longrightarrow> lex_string (c # t) = emit [c] (lex_string t)"
  by (simp add: htmlSafe_def)

lemma getu4_escape:
  assumes "x < 256"
  shows "getu4 (bsl # CHR ''u'' # CHR ''0'' # CHR ''0'' # hex_digit (x div 16) # hex_digit (x mod 16) # t)
         = Some x"
proof -
  have "x div 16 < 16" using assms by simp
  then have 1: "hexval (hex_digit (x div 16)) = Some (x div 16)" by (rule hexval_hex_digit)
  have 2: "hexval (hex_digit (x mod 16)) = Some (x mod 16)" by (rule hexval_hex_digit) simp
  have 0: "hexval (CHR ''0'') = Some 0" by (simp add: hexval_def)
  show ?thesis by (simp add: 0 1 2)
qed

lemma lex_escape:
  assumes "bv c < 0x80" "\<not> htmlSafe c"
  shows "lex_string (escape_byte c @ t) = emit [c] (lex_string t)"
proof -
  consider "c = bsl" | "c = dq" | "c = CHR 0x08" | "c = CHR 0x0C" | "c = CHR 0x0A" | "c = CHR 0x0D"
    | "c = CHR 0x09"
    | "c \<noteq> bsl" "c \<noteq> dq" "c \<noteq> CHR 0x08" "c \<noteq> CHR 0x0C" "c \<noteq> CHR 0x0A" "c \<noteq> CHR 0x0D" "c \<noteq> CHR 0x09"
    by blast
  then show ?thesis
  proof cases
    case 8
    have x: "bv c < 256" using assms by simp
    have e: "escape_byte c @ t = bsl # CHR ''u'' # CHR ''0'' # CHR ''0'' # hex_digit (bv c div 16)
        # hex_digit (bv c mod 16) # t"
      using 8 by (simp add: escape_byte_def)
    have enc: "EncodeRune (bv c) = [c]" using assms(1) by (simp add: EncodeRune_def)
    show ?thesis
      unfolding e using assms(1) enc
      by (simp add: getu4_escape[OF x] del: getu4.simps)
  qed (simp_all add: escape_byte_def)
qed

lemma EncodeRune_RuneError: "EncodeRune 0xFFFD = [CHR 0xEF, CHR 0xBF, CHR 0xBD]"
  by (simp add: EncodeRune_def byte_eq_iff)

lemma lex_fffd:
  "lex_string (bsl # CHR ''u'' # CHR ''f'' # CHR ''f'' # CHR ''f'' # CHR ''d'' # t)
   = emit [CHR 0xEF, CHR 0xBF, CHR 0xBD] (lex_string t)"
  by (simp add: hexval_def EncodeRune_RuneError)

lemma lex_2028:
  assumes "r = 0x2028 \<or> r = 0x2029"
  shows "lex_string (bsl # CHR ''u'' # CHR ''2'' # CHR ''0'' # CHR ''2'' # hex_digit (r mod 16) # t)
   = emit (EncodeRune r) (lex_string t)"
  using assms by (auto simp: hexval_def hex_digit_def)

lemma lex_multibyte:
  assumes "0x80 \<le> bv c"
    and "\<not> (fst (DecodeRune (c # cs)) = RuneError \<and> snd (DecodeRune (c # cs)) = 1)"
  shows "lex_string (take (snd (DecodeRune (c # cs))) (c # cs) @ t)
         = emit (take (snd (DecodeRune (c # cs))) (c # cs)) (lex_string t)"
proof -
  let ?n = "snd (DecodeRune (c # cs))"
  note v = DecodeRune_valid[OF assms, of t]
  from v have n2: "2 \<le> ?n" by blast
  then obtain m where m: "?n = Suc m" by (cases ?n) auto
  have tk: "take ?n (c # cs) @ t = c # (take m cs @ t)" by (simp add: m)
  have c: "c \<noteq> dq" "c \<noteq> bsl" "\<not> bv c < 0x20" "\<not> bv c < 0x80"
    using assms(1) by auto
  have d: "DecodeRune (c # (take m cs @ t)) = DecodeRune (c # cs)"
    using v tk by simp
  have dr: "drop ?n (c # take m cs @ t) = t"
    using v m by (simp add: min_def)
  have "lex_string (c # (take m cs @ t))
      = emit (EncodeRune (fst (DecodeRune (c # cs)))) (lex_string (drop ?n (c # take m cs @ t)))"
    using c by (simp add: d)
  also have "\<dots> = emit (take ?n (c # cs)) (lex_string t)"
    using v by (simp only: dr)
  finally show ?thesis by (simp only: tk)
qed

lemma lex_appendString_loop:
  "lex_string (appendString_loop s @ dq # rest) = Some (coerce s, rest)"
proof (induction "length s" arbitrary: s rule: less_induct)
  case less
  show ?case
  proof (cases s)
    case Nil
    then show ?thesis by simp
  next
    case (Cons c cs)
    have IHcs: "lex_string (appendString_loop cs @ dq # rest) = Some (coerce cs, rest)"
      using less.hyps[of cs] Cons by simp
    show ?thesis
    proof (cases "bv c < 0x80")
      case True
      have a: "appendString_loop (c # cs) = (if htmlSafe c then [c] else escape_byte c) @ appendString_loop cs"
        using True by simp
      have "lex_string ((if htmlSafe c then [c] else escape_byte c) @ appendString_loop cs @ dq # rest)
          = emit [c] (lex_string (appendString_loop cs @ dq # rest))"
        using True lex_safe[of c] lex_escape[of c] by (cases "htmlSafe c") simp_all
      then show ?thesis
        unfolding Cons a using True by (simp add: IHcs)
    next
      case False
      let ?r = "fst (DecodeRune (c # cs))"
      let ?n = "snd (DecodeRune (c # cs))"
      have ge: "0x80 \<le> bv c" using False by simp
      show ?thesis
      proof (cases "?r = RuneError \<and> ?n = 1")
        case True
        have a: "appendString_loop (c # cs) = [bsl, CHR ''u'', CHR ''f'', CHR ''f'', CHR ''f'', CHR ''d'']
            @ appendString_loop cs"
          using False True by (simp add: Let_def)
        have c: "coerce (c # cs) = [CHR 0xEF, CHR 0xBF, CHR 0xBD] @ coerce cs"
          using False True by simp
        show ?thesis
          unfolding Cons a c using lex_fffd[of "appendString_loop cs @ dq # rest"]
          by (simp add: IHcs)
      next
        case nerr: False
        note v = DecodeRune_valid[OF ge nerr]
        have n2: "2 \<le> ?n" using v[of "[]"] by blast
        have nle: "?n \<le> length (c # cs)" by (rule DecodeRune_size_le)
        have IHd: "lex_string (appendString_loop (drop ?n (c # cs)) @ dq # rest)
            = Some (coerce (drop ?n (c # cs)), rest)"
          using less.hyps[of "drop ?n (c # cs)"] Cons n2 by simp
        have c: "coerce (c # cs) = take ?n (c # cs) @ coerce (drop ?n (c # cs))"
          using False nerr by simp
        show ?thesis
        proof (cases "?r = 0x2028 \<or> ?r = 0x2029")
          case True
          have a: "appendString_loop (c # cs) = [bsl, CHR ''u'', CHR ''2'', CHR ''0'', CHR ''2'', hex_digit (?r mod 16)]
              @ appendString_loop (drop ?n (c # cs))"
            using False nerr True by (simp add: Let_def)
          have e: "EncodeRune ?r = take ?n (c # cs)" using v[of "[]"] by blast
          show ?thesis
            unfolding Cons a c
            using lex_2028[OF True, of "appendString_loop (drop ?n (c # cs)) @ dq # rest"]
            by (simp add: IHd e del: take_Suc_Cons drop_Suc_Cons)
        next
          case F2: False
          have a: "appendString_loop (c # cs) = take ?n (c # cs) @ appendString_loop (drop ?n (c # cs))"
            using False nerr F2 by (simp add: Let_def)
          show ?thesis
            unfolding Cons a c
            using lex_multibyte[OF ge nerr, of "appendString_loop (drop ?n (c # cs)) @ dq # rest"]
            by (simp add: IHd del: take_Suc_Cons drop_Suc_Cons)
        qed
      qed
    qed
  qed
qed

lemma tokenize_appendString:
  "tokenize (appendString s @ rest) = tok (TString (coerce s)) (tokenize rest)"
  by (simp add: appendString_def isSpace_def lex_appendString_loop)

lemma tok_Some [simp]: "tok t (Some ts) = Some (t # ts)"
  by (simp add: tok_def)

lemma tokenize_marshal_entry:
  "tokenize rest = Some ts \<Longrightarrow> tokenize (marshal_entry e @ rest) = Some (entry_tokens e @ ts)"
  by (simp add: marshal_entry_def entry_tokens_def isSpace_def isDigit_def tokenize_appendString
      lex_literal_def)

lemma tokenize_marshal_elems:
  "tokenize rest = Some ts \<Longrightarrow> tokenize (marshal_elems xs @ rest) = Some (elems_tokens xs @ ts)"
proof (induction xs rule: marshal_elems.induct)
  case 1
  then show ?case by simp
next
  case (2 e)
  then show ?case by (simp add: tokenize_marshal_entry)
next
  case (3 e v va)
  have "tokenize ('','' @ marshal_elems (v # va) @ rest) = Some (TComma # elems_tokens (v # va) @ ts)"
    using 3 by (simp add: isSpace_def)
  from tokenize_marshal_entry[OF this, of e] show ?case by simp
qed

lemma tokenize_Marshal:
  "tokenize (Marshal (Slice xs)) = Some (TLBrack # elems_tokens xs @ [TRBrack])"
proof -
  have "tokenize '']'' = Some [TRBrack]" by (simp add: isSpace_def)
  from tokenize_marshal_elems[OF this, of xs] show ?thesis by (simp add: isSpace_def)
qed

lemma field_of_key_names:
  "field_of_key ''name'' = Some FName" "field_of_key ''username'' = Some FUsername"
  "field_of_key ''password'' = Some FPassword"
  by (simp_all add: field_of_key_def)

lemma object_entry_tokens:
  "object (tl (entry_tokens e) @ ts) = Some (coerce_entry e, ts)"
  by (simp add: entry_tokens_def object_def object_members.simps member_value_def
      field_of_key_names zero_entry_def coerce_entry_def)

lemma element_entry_tokens:
  "element (entry_tokens e @ ts) = Some (coerce_entry e, ts)"
proof -
  have "entry_tokens e @ ts = TLBrace # (tl (entry_tokens e) @ ts)"
    by (simp add: entry_tokens_def)
  then have "element (entry_tokens e @ ts) = object (tl (entry_tokens e) @ ts)"
    by (simp only: element_def list.case token.case)
  then show ?thesis by (simp only: object_entry_tokens)
qed

lemma array_elems_tokens:
  "xs \<noteq> [] \<Longrightarrow> array_elems (elems_tokens xs @ TRBrack # ts) = Some (map coerce_entry xs, ts)"
proof (induction xs rule: elems_tokens.induct)
  case 1
  then show ?case by simp
next
  case (2 e)
  show ?case
    by (subst array_elems.simps) (simp add: element_entry_tokens)
next
  case (3 e v va)
  have "array_elems (elems_tokens (v # va) @ TRBrack # ts) = Some (map coerce_entry (v # va), ts)"
    using 3 by simp
  then show ?case
    by (subst array_elems.simps) (simp add: element_entry_tokens)
qed

lemma entry_tokens_not_RBrack: "\<exists>r. entry_tokens e = TLBrace # r"
  by (simp add: entry_tokens_def)

lemma array_tokens:
  "array (elems_tokens xs @ [TRBrack]) = Some (map coerce_entry xs, [])"
proof (cases xs)
  case Nil
  then show ?thesis by (simp add: array_def)
next
  case (Cons e es)
  then obtain r where r: "elems_tokens xs = TLBrace # r"
    using entry_tokens_not_RBrack[of e] by (cases es) auto
  have "array (elems_tokens xs @ [TRBrack]) = array_elems (elems_tokens xs @ [TRBrack])"
    by (simp add: array_def r)
  with Cons array_elems_tokens[of xs "[]"] show ?thesis by simp
qed

lemma Unmarshal_Marshal: "Unmarshal (Marshal data) = Inr (coerce_entries data)"
proof (cases data)
  case NilSlice
  then show ?thesis
    by (simp add: Unmarshal_def isSpace_def isDigit_def lex_literal_def)
next
  case (Slice xs)
  then show ?thesis
    by (simp add: Unmarshal_def tokenize_Marshal array_tokens del: Marshal.simps)
qed

lemma coerce_entry_valid: "valid_entry e \<Longrightarrow> coerce_entry e = e"
  by (simp add: valid_entry_def coerce_entry_def coerce_valid)

lemma coerce_entries_valid: "\<forall>e\<in>set (elems data). valid_entry e \<Longrightarrow> coerce_entries data = data"
  by (cases data) (simp_all add: coerce_entry_valid map_idI)

section \<open>The claims about the generator\<close>

text \<open>
  Claim C10, as stated: the generator returns \<open>length\<close> bytes of the charset and,
  consequently, for every non-empty charset the guarantee on characters holds exactly
  when every character of the charset is a single byte. The second half fails for a
  charset that is not well-formed UTF-8: the two bytes \<open>80 C3\<close> are two characters of
  one byte each (each decodes to \<open>U+FFFD\<close> with width 1), but drawn in the order
  \<open>C3 80\<close> they are the single character \<open>U+00C0\<close>, so a request for two
  characters returns one, and not one of the charset.
\<close>

theorem illformed_charset_counterexample:
  "single_byte_chars [CHR 0x80, CHR 0xC3]
   \<and> honest_source (\<lambda>k. DrawIdx (1 - k)) (nat 2) (length [CHR 0x80, CHR 0xC3])
   \<and> GeneratePassword 2 [CHR 0x80, CHR 0xC3] (\<lambda>k. DrawIdx (1 - k)) = Inr [CHR 0xC3, CHR 0x80]
   \<and> runes [CHR 0xC3, CHR 0x80] = [0xC0]
   \<and> \<not> char_guarantee 2 [CHR 0x80, CHR 0xC3] [CHR 0xC3, CHR 0x80]
   \<and> \<not> ValidString [CHR 0x80, CHR 0xC3]"
proof -
  have h: "honest_source (\<lambda>k. DrawIdx (1 - k)) (nat 2) (length [CHR 0x80, CHR 0xC3])"
    unfolding honest_source_def by auto
  have rest: "single_byte_chars [CHR 0x80, CHR 0xC3]
   \<and> GeneratePassword 2 [CHR 0x80, CHR 0xC3] (\<lambda>k. DrawIdx (1 - k)) = Inr [CHR 0xC3, CHR 0x80]
   \<and> runes [CHR 0xC3, CHR 0x80] = [0xC0]
   \<and> \<not> char_guarantee 2 [CHR 0x80, CHR 0xC3] [CHR 0xC3, CHR 0x80]
   \<and> \<not> ValidString [CHR 0x80, CHR 0xC3]"
    by (simp add: GeneratePassword_def gen_loop.simps cryptorand_Int_def char_guarantee_def
      single_byte_chars_def ValidString.simps
      runes.simps DecodeRune.simps rune_size_def accept_lo_def accept_hi_def RuneError_def Let_def
      numeral_2_eq_2)
  from h rest show ?thesis by blast
qed

text \<open>
  Claim C10, amended. \<^verbatim>\<open>GeneratePassword\<close> works on bytes: for a positive length, a
  non-empty charset and a random source that honours the contract of \<^verbatim>\<open>rand.Int\<close>, it
  returns a string of exactly \<open>length\<close> bytes, the \<open>i\<close>-th of which is the byte of the
  charset at the \<open>i\<close>-th drawn index. Consequently, for a charset that is well-formed
  UTF-8, the guarantee on characters (exactly \<open>length\<close> characters, each a character of
  the charset) holds for every length and every outcome of the draws exactly when
  every character of the charset is a single byte.
\<close>

theorem GeneratePassword_bytes:
  "(0 < len \<and> charset \<noteq> [] \<and> honest_source src (nat len) (length charset) \<longrightarrow>
      (\<exists>pw. GeneratePassword len charset src = Inr pw \<and> length pw = nat len
         \<and> (\<forall>i<nat len. draw_idx (src i) < length charset
                \<and> pw ! i = charset ! draw_idx (src i))))
   \<and> (ValidString charset \<longrightarrow>
        ((\<forall>len' src' pw'. 0 < len' \<and> honest_source src' (nat len') (length charset)
              \<and> GeneratePassword len' charset src' = Inr pw'
              \<longrightarrow> char_guarantee len' charset pw')
         \<longleftrightarrow> single_byte_chars charset))"
proof (intro conjI impI)
  assume h: "0 < len \<and> charset \<noteq> [] \<and> honest_source src (nat len) (length charset)"
  then have "GeneratePassword len charset src
      = Inr (map (\<lambda>k. charset ! draw_idx (src k)) [0..<nat len])"
    by (simp add: GeneratePassword_honest)
  then show "\<exists>pw. GeneratePassword len charset src = Inr pw \<and> length pw = nat len
         \<and> (\<forall>i<nat len. draw_idx (src i) < length charset
                \<and> pw ! i = charset ! draw_idx (src i))"
    using h honest_source_idx[of src "nat len" "length charset"] by simp
next
  assume v: "ValidString charset"
  show "(\<forall>len' src' pw'. 0 < len' \<and> honest_source src' (nat len') (length charset)
              \<and> GeneratePassword len' charset src' = Inr pw'
              \<longrightarrow> char_guarantee len' charset pw')
         \<longleftrightarrow> single_byte_chars charset"
  proof
    assume "single_byte_chars charset"
    with v have "\<forall>c\<in>set charset. bv c < 0x80"
      by (simp add: single_byte_chars_def single_byte_valid_ascii)
    then show "\<forall>len' src' pw'. 0 < len' \<and> honest_source src' (nat len') (length charset)
              \<and> GeneratePassword len' charset src' = Inr pw'
              \<longrightarrow> char_guarantee len' charset pw'"
      using guarantee_ascii by blast
  next
    assume "\<forall>len' src' pw'. 0 < len' \<and> honest_source src' (nat len') (length charset)
              \<and> GeneratePassword len' charset src' = Inr pw'
              \<longrightarrow> char_guarantee len' charset pw'"
    then show "single_byte_chars charset"
      using guarantee_fails[of charset] by blast
  qed
qed

theorem GeneratePassword_bytes_witness:
  "honest_source (\<lambda>k. DrawIdx (k mod 2)) (nat 10) (length ''ab'')
   \<and> ValidString ''ab'' \<and> single_byte_chars ''ab''
   \<and> (\<exists>pw. GeneratePassword 10 ''ab'' (\<lambda>k. DrawIdx (k mod 2)) = Inr pw \<and> length pw = 10
         \<and> (\<forall>i<10. pw ! i = ''ab'' ! (i mod 2)) \<and> char_guarantee 10 ''ab'' pw)"
proof -
  have h: "honest_source (\<lambda>k. DrawIdx (k mod 2)) (nat 10) (length ''ab'')"
    unfolding honest_source_def by (auto simp: numeral_2_eq_2[symmetric])
  have v: "ValidString ''ab''"
    by (simp add: ValidString.simps DecodeRune.simps RuneError_def)
  have s: "single_byte_chars ''ab''"
    by (simp add: single_byte_chars_def runes.simps DecodeRune.simps)
  have ne: "''ab'' \<noteq> []" by simp
  have pos: "(0::int) < 10" by simp
  note T = GeneratePassword_bytes[of 10 "''ab''" "\<lambda>k. DrawIdx (k mod 2)"]
  from T h ne pos have "\<exists>pw. GeneratePassword 10 ''ab'' (\<lambda>k. DrawIdx (k mod 2)) = Inr pw
         \<and> length pw = nat 10
         \<and> (\<forall>i<nat 10. draw_idx (DrawIdx (i mod 2)) < length ''ab''
                \<and> pw ! i = ''ab'' ! draw_idx (DrawIdx (i mod 2)))"
    by blast
  then obtain pw where pw: "GeneratePassword 10 ''ab'' (\<lambda>k. DrawIdx (k mod 2)) = Inr pw"
      "length pw = nat 10" "\<forall>i<nat 10. pw ! i = ''ab'' ! draw_idx (DrawIdx (i mod 2))"
    by blast
  from T v s have "\<forall>len' src' pw'. 0 < len' \<and> honest_source src' (nat len') (length ''ab'')
              \<and> GeneratePassword len' ''ab'' src' = Inr pw'
              \<longrightarrow> char_guarantee len' ''ab'' pw'"
    by blast
  with pos h pw(1) have g: "char_guarantee 10 ''ab'' pw"
    by blast
  have "GeneratePassword 10 ''ab'' (\<lambda>k. DrawIdx (k mod 2)) = Inr pw \<and> length pw = 10
         \<and> (\<forall>i<10. pw ! i = ''ab'' ! (i mod 2)) \<and> char_guarantee 10 ''ab'' pw"
    using pw g by (simp add: draw_idx_def)
  then have 1: "\<exists>pw. GeneratePassword 10 ''ab'' (\<lambda>k. DrawIdx (k mod 2)) = Inr pw \<and> length pw = 10
         \<and> (\<forall>i<10. pw ! i = ''ab'' ! (i mod 2)) \<and> char_guarantee 10 ''ab'' pw"
    by (rule exI)
  from h v s 1 show ?thesis by blast
qed

text \<open>
  Claim C8. The generator's guarantee on characters: the result has exactly \<open>length\<close>
  characters, each one a character of the charset. The code indexes bytes, so the
  guarantee is broken by a charset with a character of several bytes: with the charset
  \<open>U+00E9\<close> (the two bytes \<open>C3 A9\<close>) a request for two characters returns one,
  and a request for one character returns the lone byte \<open>C3\<close>, which is no
  character of the charset.
\<close>

theorem GeneratePassword_multibyte_charset:
  "GeneratePassword 2 [CHR 0xC3, CHR 0xA9] (\<lambda>k. DrawIdx k) = Inr [CHR 0xC3, CHR 0xA9]
   \<and> runes [CHR 0xC3, CHR 0xA9] = [0xE9]
   \<and> \<not> char_guarantee 2 [CHR 0xC3, CHR 0xA9] [CHR 0xC3, CHR 0xA9]
   \<and> GeneratePassword 1 [CHR 0xC3, CHR 0xA9] (\<lambda>k. DrawIdx k) = Inr [CHR 0xC3]
   \<and> runes [CHR 0xC3] = [0xFFFD]
   \<and> \<not> char_guarantee 1 [CHR 0xC3, CHR 0xA9] [CHR 0xC3]"
  by (simp add: GeneratePassword_def gen_loop.simps cryptorand_Int_def char_guarantee_def
      runes.simps DecodeRune.simps rune_size_def accept_lo_def accept_hi_def RuneError_def Let_def
      numeral_2_eq_2)

section \<open>The claims about the store\<close>

text \<open>
  Claim C4. Permission invariant: whenever one of the writing operations \<^verbatim>\<open>Init\<close>,
  \<^verbatim>\<open>Add\<close>, \<^verbatim>\<open>Update\<close>, \<^verbatim>\<open>Remove\<close> returns without error, the store file exists
  afterwards with the permission bits \<open>0600\<close>: read and write for the owner (the owner
  digit is 6) and nothing for group and others (the lower six bits are 0). This holds
  for every file system before the call, whatever the permission bits of the file were.
\<close>

theorem permission_invariant:
  "(Init ev fsys filename = (None, fs') \<or> Add ev fsys filename newEntry = (None, fs')
     \<or> Update ev fsys filename newEntry = (None, fs') \<or> Remove ev fsys filename name = (None, fs'))
   \<longrightarrow> (\<exists>ct. fs' filename = Some (File ct perm_0600))
       \<and> perm_0600 div 64 = 6 \<and> perm_0600 mod 64 = 0"
proof
  assume a: "Init ev fsys filename = (None, fs') \<or> Add ev fsys filename newEntry = (None, fs')
     \<or> Update ev fsys filename newEntry = (None, fs') \<or> Remove ev fsys filename name = (None, fs')"
  have w: "\<exists>ct. fs' filename = Some (File ct perm_0600)"
    if "write_file ev fsys filename data = (None, fs')" for data
    using that by (auto simp: write_file_ok)
  from a have "\<exists>data. write_file ev fsys filename data = (None, fs')"
    by (auto simp: Init_def Add_def Update_def Remove_def
        split: if_splits sum.splits option.splits prod.splits)
  with w have "\<exists>ct. fs' filename = Some (File ct perm_0600)" by blast
  then show "(\<exists>ct. fs' filename = Some (File ct perm_0600))
       \<and> perm_0600 div 64 = 6 \<and> perm_0600 mod 64 = 0"
    by (simp add: perm_0600_def)
qed

theorem permission_invariant_witness:
  "Add plain_env [''pw'' \<mapsto> File ''[]'' 438] ''pw'' \<lparr>Name = ''a'', Username = ''u'', Password = ''p''\<rparr>
     = (None, [''pw'' \<mapsto> File (Marshal (Slice [\<lparr>Name = ''a'', Username = ''u'', Password = ''p''\<rparr>])) perm_0600])
   \<and> (\<exists>ct. [''pw'' \<mapsto> File (Marshal (Slice [\<lparr>Name = ''a'', Username = ''u'', Password = ''p''\<rparr>])) perm_0600] ''pw''
        = Some (File ct perm_0600))"
proof -
  have a: "Add plain_env [''pw'' \<mapsto> File ''[]'' 438] ''pw'' \<lparr>Name = ''a'', Username = ''u'', Password = ''p''\<rparr>
     = (None, [''pw'' \<mapsto> File (Marshal (Slice [\<lparr>Name = ''a'', Username = ''u'', Password = ''p''\<rparr>])) perm_0600])"
    by (simp add: store_eval json_eval)
  with permission_invariant[of plain_env "[''pw'' \<mapsto> File ''[]'' 438]" "''pw''" _
      "\<lparr>Name = ''a'', Username = ''u'', Password = ''p''\<rparr>"]
  show ?thesis by blast
qed


text \<open>
  Claim C5. A mutating operation that fails with a domain error writes nothing: when
  \<^verbatim>\<open>Add\<close> returns \<^verbatim>\<open>ErrPwAlreadyExists\<close>, or \<^verbatim>\<open>Update\<close> or \<^verbatim>\<open>Remove\<close> returns
  \<^verbatim>\<open>ErrPwNotFound\<close>, the file system after the call is the file system before it.
\<close>

theorem domain_error_no_write:
  "(fst (Add ev fsys filename newEntry) = Some ErrPwAlreadyExists
      \<longrightarrow> snd (Add ev fsys filename newEntry) = fsys)
   \<and> (fst (Update ev fsys filename newEntry) = Some ErrPwNotFound
      \<longrightarrow> snd (Update ev fsys filename newEntry) = fsys)
   \<and> (fst (Remove ev fsys filename name) = Some ErrPwNotFound
      \<longrightarrow> snd (Remove ev fsys filename name) = fsys)"
proof -
  have w: "fst (write_file ev fsys filename data) \<noteq> Some ErrPwAlreadyExists
      \<and> fst (write_file ev fsys filename data) \<noteq> Some ErrPwNotFound" for data
    using write_file_err_cases[of ev fsys filename data]
    by (cases "write_file ev fsys filename data") auto
  show ?thesis
    using w
    by (auto simp: Add_def Update_def Remove_def
        split: if_splits sum.splits option.splits prod.splits)
qed

theorem domain_error_no_write_witness:
  "fst (Add plain_env [''pw'' \<mapsto> File ''[null]'' 438] ''pw'' zero_entry) = Some ErrPwAlreadyExists
   \<and> snd (Add plain_env [''pw'' \<mapsto> File ''[null]'' 438] ''pw'' zero_entry) = [''pw'' \<mapsto> File ''[null]'' 438]
   \<and> fst (Update plain_env [''pw'' \<mapsto> File ''[]'' 438] ''pw'' zero_entry) = Some ErrPwNotFound
   \<and> snd (Update plain_env [''pw'' \<mapsto> File ''[]'' 438] ''pw'' zero_entry) = [''pw'' \<mapsto> File ''[]'' 438]
   \<and> fst (Remove plain_env [''pw'' \<mapsto> File ''[]'' 438] ''pw'' ''a'') = Some ErrPwNotFound
   \<and> snd (Remove plain_env [''pw'' \<mapsto> File ''[]'' 438] ''pw'' ''a'') = [''pw'' \<mapsto> File ''[]'' 438]"
proof -
  have a: "fst (Add plain_env [''pw'' \<mapsto> File ''[null]'' 438] ''pw'' zero_entry) = Some ErrPwAlreadyExists"
    by (simp add: store_eval json_eval)
  have u: "fst (Update plain_env [''pw'' \<mapsto> File ''[]'' 438] ''pw'' zero_entry) = Some ErrPwNotFound"
    by (simp add: store_eval json_eval)
  have r: "fst (Remove plain_env [''pw'' \<mapsto> File ''[]'' 438] ''pw'' ''a'') = Some ErrPwNotFound"
    by (simp add: store_eval json_eval)
  from domain_error_no_write[of plain_env "[''pw'' \<mapsto> File ''[null]'' 438]" "''pw''" zero_entry] a
  have a': "snd (Add plain_env [''pw'' \<mapsto> File ''[null]'' 438] ''pw'' zero_entry) = [''pw'' \<mapsto> File ''[null]'' 438]"
    by blast
  from domain_error_no_write[of plain_env "[''pw'' \<mapsto> File ''[]'' 438]" "''pw''" zero_entry "''a''"] u r
  have u': "snd (Update plain_env [''pw'' \<mapsto> File ''[]'' 438] ''pw'' zero_entry) = [''pw'' \<mapsto> File ''[]'' 438]"
    and r': "snd (Remove plain_env [''pw'' \<mapsto> File ''[]'' 438] ''pw'' ''a'') = [''pw'' \<mapsto> File ''[]'' 438]"
    by blast+
  from a a' u u' r r' show ?thesis by blast
qed




section \<open>The claims about the record codec\<close>

text \<open>
  Claim C6, as the specification states it: encoding any sequence of records and
  decoding the result yields an equal sequence. \<^verbatim>\<open>json.Marshal\<close> writes a string
  coerced to well-formed UTF-8, so a field with a byte that starts no well-formed
  sequence does not come back: the name of the single byte \<open>FF\<close> comes back as the
  three bytes of \<open>U+FFFD\<close>.
\<close>

theorem codec_round_trip_counterexample:
  "Unmarshal (Marshal (Slice [\<lparr>Name = [CHR 0xFF], Username = [], Password = []\<rparr>]))
     = Inr (Slice [\<lparr>Name = [CHR 0xEF, CHR 0xBF, CHR 0xBD], Username = [], Password = []\<rparr>])
   \<and> Unmarshal (Marshal (Slice [\<lparr>Name = [CHR 0xFF], Username = [], Password = []\<rparr>]))
     \<noteq> Inr (Slice [\<lparr>Name = [CHR 0xFF], Username = [], Password = []\<rparr>])"
  by (simp add: json_eval)

text \<open>
  Claim C6, amended. Decoding the encoding of a sequence yields the sequence with every
  byte of a field that starts no well-formed UTF-8 sequence replaced by \<open>U+FFFD\<close>;
  hence for every sequence whose fields are well-formed UTF-8, the empty sequence and
  the nil sequence included, encoding and then decoding yields an equal sequence.
\<close>

theorem codec_round_trip:
  "Unmarshal (Marshal data) = Inr (coerce_entries data)
   \<and> ((\<forall>e\<in>set (elems data). valid_entry e) \<longrightarrow> Unmarshal (Marshal data) = Inr data)
   \<and> Unmarshal (Marshal (Slice [])) = Inr (Slice [])
   \<and> Unmarshal (Marshal NilSlice) = Inr NilSlice"
  using Unmarshal_Marshal[of data] Unmarshal_Marshal[of "Slice []"] Unmarshal_Marshal[of NilSlice]
  by (simp add: coerce_entries_valid del: Marshal.simps)

theorem codec_round_trip_witness:
  "valid_entry entry_cafe
   \<and> Unmarshal (Marshal (Slice [entry_cafe, zero_entry])) = Inr (Slice [entry_cafe, zero_entry])
   \<and> Unmarshal (Marshal (Slice [])) = Inr (Slice [])"
proof -
  have v: "valid_entry entry_cafe" "valid_entry zero_entry"
    by (simp_all add: valid_entry_def entry_cafe_def zero_entry_def utf8_eval)
  then have "\<forall>e\<in>set (elems (Slice [entry_cafe, zero_entry])). valid_entry e" by simp
  with codec_round_trip[of "Slice [entry_cafe, zero_entry]"] v show ?thesis by blast
qed

end
